theory Spec2Isabelle
  imports Complex_Main "HOL-Library.Word"
begin

section \<open>Machine integers\<close>

text \<open>
  Go's \<open>int\<close> is modelled as a mathematical integer together with the 64-bit
  two's-complement wrap-around, written out at every arithmetic operation of the source
  whose result can leave the range. \<open>int64\<close> says that a value is a legal \<open>int\<close>.
\<close>

definition wrap64 :: "int \<Rightarrow> int" where
  "wrap64 x = (x + 2 ^ 63) mod 2 ^ 64 - 2 ^ 63"

definition int64 :: "int \<Rightarrow> bool" where
  "int64 x \<longleftrightarrow> - (2 ^ 63) \<le> x \<and> x < 2 ^ 63"

definition MaxInt32 :: int where
  "MaxInt32 = 2147483647"

section \<open>Memory, slices and panics\<close>

text \<open>
  A slice is its header (\<open>reflect.SliceHeader\<close>): the address of its first byte, its
  length and its capacity. Memory is a map from addresses to bytes together with the next
  free address; address 0 is the nil pointer. Memory is unbounded: running out of it is
  not modelled.
\<close>

type_synonym byte = "8 word"

record slice =
  Data :: nat
  Len :: int
  Cap :: int

record memory =
  cells :: "nat \<Rightarrow> byte"
  brk :: nat

text \<open>
  The errors of package buffer, the end-of-stream and other errors of a reader, and the
  run-time panics of Go that the modelled code can raise.
\<close>

datatype error =
    ErrTooLarge | ErrTruncation | ErrGrow
  | EOF | SourceError nat
  | MakesliceLen | MakesliceCap | SliceBounds | IndexRange

definition nilSlice :: slice where
  "nilSlice = \<lparr>Data = 0, Len = 0, Cap = 0\<rparr>"

text \<open>\<open>make([]byte, n, k)\<close>: a fresh zeroed array of \<open>k\<close> bytes.\<close>

definition makeslice :: "memory \<Rightarrow> int \<Rightarrow> int \<Rightarrow> (error + slice) \<times> memory" where
  "makeslice M n k =
     (if n < 0 then (Inl MakesliceLen, M)
      else if k < n then (Inl MakesliceCap, M)
      else (Inr \<lparr>Data = brk M, Len = n, Cap = k\<rparr>,
            \<lparr>cells = (\<lambda>a. if brk M \<le> a \<and> a < brk M + nat k then 0 else cells M a),
             brk = brk M + nat k\<rparr>))"

text \<open>\<open>s[:k]\<close> and \<open>s[k:]\<close>.\<close>

definition sliceTo :: "slice \<Rightarrow> int \<Rightarrow> error + slice" where
  "sliceTo s k = (if 0 \<le> k \<and> k \<le> Cap s then Inr (s\<lparr>Len := k\<rparr>) else Inl SliceBounds)"

definition sliceFrom :: "slice \<Rightarrow> int \<Rightarrow> error + slice" where
  "sliceFrom s k =
     (if 0 \<le> k \<and> k \<le> Len s
      then Inr \<lparr>Data = Data s + nat k, Len = Len s - k, Cap = Cap s - k\<rparr>
      else Inl SliceBounds)"

text \<open>The bytes a slice shows, and \<open>copy(dst, src)\<close>, which moves as \<open>memmove\<close> does.\<close>

definition bytesAt :: "memory \<Rightarrow> nat \<Rightarrow> nat \<Rightarrow> byte list" where
  "bytesAt M a n = map (cells M) [a ..< a + n]"

definition contents :: "memory \<Rightarrow> slice \<Rightarrow> byte list" where
  "contents M s = bytesAt M (Data s) (nat (Len s))"

definition memmove :: "memory \<Rightarrow> nat \<Rightarrow> nat \<Rightarrow> nat \<Rightarrow> memory" where
  "memmove M d s n =
     M\<lparr>cells := (\<lambda>a. if d \<le> a \<and> a < d + n then cells M (s + (a - d)) else cells M a)\<rparr>"

definition copySlice :: "memory \<Rightarrow> slice \<Rightarrow> slice \<Rightarrow> int \<times> memory" where
  "copySlice M dst src =
     (let n = min (Len dst) (Len src)
      in (n, memmove M (Data dst) (Data src) (nat n)))"

section \<open>The size-class pool (bytes\_pool.go)\<close>

definition minCapacity :: int where
  "minCapacity = 2"

text \<open>
  A \<open>bytesPool\<close> is one size class: its capacity and the \<open>sync.Pool\<close> of the
  array pointers that were put back. The pool's \<open>New\<close> closure is part of \<open>poolGet\<close> below.
\<close>

record bytesPool =
  capacity :: int
  pool :: "nat list"

record CapacityPools =
  minSize :: int
  maxSize :: int
  maxIndex :: int
  pools :: "bytesPool list"

definition newBytesPool :: "int \<Rightarrow> bytesPool" where
  "newBytesPool sz = \<lparr>capacity = sz, pool = []\<rparr>"

text \<open>
  The loop \<open>for i := minSize; i < maxSize; i *= 2\<close> of \<open>NewCapacityPools\<close>. The
  doubling wraps, so the loop need not end: \<open>None\<close> is the run that never returns.
\<close>

partial_function (option) classLoop :: "int \<Rightarrow> int \<Rightarrow> bytesPool list \<Rightarrow> bytesPool list option" where
  "classLoop i mx ps =
     (if i < mx then classLoop (wrap64 (i * 2)) mx (ps @ [newBytesPool i]) else Some ps)"

definition NewCapacityPools :: "int \<Rightarrow> int \<Rightarrow> CapacityPools option" where
  "NewCapacityPools minSize0 maxSize0 =
     (let mn = (if minSize0 < minCapacity then minCapacity else minSize0);
          mx = (if maxSize0 < mn then mn else maxSize0)
      in case classLoop mn mx [] of
           None \<Rightarrow> None
         | Some ps \<Rightarrow>
             (let ps' = ps @ [newBytesPool mx]
              in Some \<lparr>minSize = mn, maxSize = mx,
                       maxIndex = int (length ps') - 1, pools = ps'\<rparr>))"

text \<open>
  The exact value of \<open>ceil(log2(size / minSize))\<close> for \<open>0 < minSize < size\<close> (lemma
  \<open>ceilLog2_real\<close>): the least \<open>k\<close> with \<open>size \<le> minSize * 2 ^ k\<close>.
\<close>

function clog :: "int \<Rightarrow> int \<Rightarrow> int" where
  "clog i sz = (if 0 < i \<and> i < sz then 1 + clog (2 * i) sz else 0)"
  by pat_completeness auto
termination
  by (relation "measure (\<lambda>(i, sz). nat (sz - i))") auto

definition ceilLog2 :: "int \<Rightarrow> int \<Rightarrow> int" where
  "ceilLog2 sz mn = clog mn sz"

text \<open>
  The \<open>float64\<close> arithmetic of \<open>getPool\<close>. A finite \<open>float64\<close> is the real number it
  denotes, and \<open>f64\<close> rounds a real number to the nearest \<open>float64\<close>, ties to the even
  significand: \<open>expo\<close> is the binary exponent, \<open>ulp\<close> the spacing of the \<open>float64\<close>
  values at that exponent (53 significant bits). The exponent range is not modelled: the
  values that occur here, integers of 64 bits and the quotients of two positive ones, lie
  far inside it. The conversion \<open>float64(n)\<close> of an integer is \<open>f64 (of_int n)\<close>, and
  the quotient of two \<open>float64\<close> values \<open>x\<close> and \<open>y\<close> is \<open>f64 (x / y)\<close>.
\<close>

definition roundEven :: "real \<Rightarrow> int" where
  "roundEven r =
     (let f = \<lfloor>r\<rfloor>
      in if r - of_int f < 1 / 2 then f
         else if 1 / 2 < r - of_int f then f + 1
         else if even f then f else f + 1)"

definition expo :: "real \<Rightarrow> int" where
  "expo x = \<lfloor>log 2 \<bar>x\<bar>\<rfloor>"

definition ulp :: "real \<Rightarrow> real" where
  "ulp x = 2 powr (of_int (expo x) - 52)"

definition f64 :: "real \<Rightarrow> real" where
  "f64 x = (if x = 0 then 0 else of_int (roundEven (x / ulp x)) * ulp x)"

text \<open>
  What is left to the Go run time and library, as parameters of the model: which stored
  item \<open>sync.Pool.Get\<close> returns (\<open>pick\<close>: a position in the store, a position outside it
  being a miss); the capacity \<open>append\<close> gives a slice it has to reallocate (\<open>growcap\<close>,
  from the old capacity and the needed length); and the library function \<open>math.Log2\<close>
  (\<open>Log2\<close>, from a \<open>float64\<close> to a \<open>float64\<close>).
\<close>

record runtime =
  pick :: "nat list \<Rightarrow> nat"
  growcap :: "int \<Rightarrow> int \<Rightarrow> int"
  Log2 :: "real \<Rightarrow> real"

text \<open>
  \<open>int(math.Ceil(math.Log2(float64(size) / float64(p.minSize))))\<close>, the index that
  \<open>getPool\<close> computes for a size between \<open>minSize\<close> and \<open>maxSize\<close>: two conversions, the
  quotient, the library's logarithm, the ceiling, and the conversion of its integral value
  to \<open>int\<close>. (\<open>minSize\<close> is positive in every pool that \<open>NewCapacityPools\<close> returns; the
  infinities and NaN of a division by zero are not modelled.)
\<close>

definition log2ceil :: "runtime \<Rightarrow> int \<Rightarrow> int \<Rightarrow> int" where
  "log2ceil rt sz mn = \<lceil>Log2 rt (f64 (f64 (of_int sz) / f64 (of_int mn)))\<rceil>"

text \<open>\<open>p.pools[i]\<close>, as the index of the class; out of range it panics.\<close>

definition poolAt :: "CapacityPools \<Rightarrow> int \<Rightarrow> error + nat option" where
  "poolAt p i =
     (if 0 \<le> i \<and> i < int (length (pools p)) then Inr (Some (nat i)) else Inl IndexRange)"

definition getPool :: "runtime \<Rightarrow> CapacityPools \<Rightarrow> int \<Rightarrow> error + nat option" where
  "getPool rt p sz =
     (if sz \<le> minSize p then poolAt p 0
      else if sz = maxSize p then poolAt p (maxIndex p)
      else if sz > maxSize p then Inr None
      else (let idx = log2ceil rt sz (minSize p);
                idx = (if idx < 0 then 0 else idx)
            in if idx > maxIndex p then Inr None else poolAt p idx))"

text \<open>
  \<open>bp.pool.Get().(unsafe.Pointer)\<close>. \<open>sync.Pool.Get\<close> takes an arbitrary stored item
  or none: \<open>ch\<close>, the run time's \<open>pick\<close>, gives the position in the store, and a
  position outside it is a miss.
  On a miss the pool's \<open>New\<close> closure allocates \<open>make([]byte, size, size)\<close> and returns
  a \<open>*[]byte\<close>, which fails the type assertion, so the pointer is nil (0).
\<close>

definition poolGet ::
    "(nat list \<Rightarrow> nat) \<Rightarrow> bytesPool \<Rightarrow> memory \<Rightarrow> (error + nat) \<times> bytesPool \<times> memory" where
  "poolGet ch bp M =
     (let i = ch (pool bp)
      in if i < length (pool bp)
         then (Inr (pool bp ! i), bp\<lparr>pool := take i (pool bp) @ drop (Suc i) (pool bp)\<rparr>, M)
         else (case makeslice M (capacity bp) (capacity bp) of
                 (Inl e, M') \<Rightarrow> (Inl e, bp, M')
               | (Inr buf, M') \<Rightarrow> (Inr 0, bp, M')))"

definition New ::
    "runtime \<Rightarrow> CapacityPools \<Rightarrow> memory \<Rightarrow> int
      \<Rightarrow> (error + slice) \<times> CapacityPools \<times> memory" where
  "New rt p M sz =
     (case getPool rt p sz of
        Inl e \<Rightarrow> (Inl e, p, M)
      | Inr None \<Rightarrow> (case makeslice M sz sz of (r, M') \<Rightarrow> (r, p, M'))
      | Inr (Some i) \<Rightarrow>
          (let bp = pools p ! i
           in case poolGet (pick rt) bp M of
                (Inl e, bp', M') \<Rightarrow> (Inl e, p, M')
              | (Inr ptr, bp', M') \<Rightarrow>
                  (let p' = p\<lparr>pools := (pools p)[i := bp']\<rparr>
                   in if ptr = 0
                      then (case makeslice M' sz (capacity bp) of (r, M'') \<Rightarrow> (r, p', M''))
                      else (Inr \<lparr>Data = ptr, Len = sz, Cap = capacity bp\<rparr>, p', M'))))"

text \<open>\<open>Make(capacity)\<close> is \<open>p.New(capacity)[:0]\<close>.\<close>

definition Make ::
    "runtime \<Rightarrow> CapacityPools \<Rightarrow> memory \<Rightarrow> int
      \<Rightarrow> (error + slice) \<times> CapacityPools \<times> memory" where
  "Make rt p M k =
     (case New rt p M k of
        (Inl e, p', M') \<Rightarrow> (Inl e, p', M')
      | (Inr s, p', M') \<Rightarrow> (sliceTo s 0, p', M'))"

text \<open>
  \<open>Release\<close>; \<open>&buf[:1][0]\<close> is the address of the first byte, and \<open>buf[:1]\<close> panics
  on a capacity below 1.
\<close>

definition Release ::
    "runtime \<Rightarrow> CapacityPools \<Rightarrow> slice \<Rightarrow> (error + bool) \<times> CapacityPools" where
  "Release rt p buf =
     (let n = Cap buf
      in if n = 0 \<or> n > maxSize p then (Inr False, p)
         else (case getPool rt p n of
                 Inl e \<Rightarrow> (Inl e, p)
               | Inr None \<Rightarrow> (Inr False, p)
               | Inr (Some i) \<Rightarrow>
                   (let bp = pools p ! i
                    in if n \<noteq> capacity bp then (Inr False, p)
                       else if n < 1 then (Inl SliceBounds, p)
                       else (Inr True,
                             p\<lparr>pools := (pools p)[i := bp\<lparr>pool := Data buf # pool bp\<rparr>]\<rparr>))))"

section \<open>The growable buffer (buffer/buffer.go)\<close>

text \<open>
  \<open>Buffer\<close>: the slice \<open>B\<close> and the reference count \<open>c\<close>, an \<open>int64\<close>.
\<close>

record Buffer =
  B :: slice
  c :: "64 word"

text \<open>
  What the buffer's methods work on besides the buffer: \<open>defaultPools.bs\<close>, the size-class
  pool of package buffer, and the memory. The declaration of \<open>defaultPools\<close> is not among
  the sources; the pool is a parameter here, and the theorems take it to be a pool that
  \<open>NewCapacityPools\<close> returned.
\<close>

record world =
  bs :: CapacityPools
  mem :: memory

text \<open>\<open>append(dst, src...)\<close>: in place when the capacity suffices, else into a new array.\<close>

definition appendSlice ::
    "(int \<Rightarrow> int \<Rightarrow> int) \<Rightarrow> memory \<Rightarrow> slice \<Rightarrow> slice \<Rightarrow> (error + slice) \<times> memory" where
  "appendSlice grow M dst src =
     (let n = Len dst + Len src
      in if n \<le> Cap dst
         then (Inr (dst\<lparr>Len := n\<rparr>),
               memmove M (Data dst + nat (Len dst)) (Data src) (nat (Len src)))
         else (case makeslice M n (grow (Cap dst) n) of
                 (Inl e, M') \<Rightarrow> (Inl e, M')
               | (Inr fresh, M') \<Rightarrow>
                   (Inr fresh,
                    memmove (memmove M' (Data fresh) (Data dst) (nat (Len dst)))
                      (Data fresh + nat (Len dst)) (Data src) (nat (Len src)))))"

text \<open>
  \<open>Len()\<close> and \<open>Cap()\<close> of \<open>Buffer\<close>.
\<close>

definition bbLen :: "Buffer \<Rightarrow> int" where
  "bbLen bb = Len (B bb)"

definition bbCap :: "Buffer \<Rightarrow> int" where
  "bbCap bb = Cap (B bb)"

definition Guarantee ::
    "runtime \<Rightarrow> world \<Rightarrow> Buffer \<Rightarrow> int \<Rightarrow> (error + unit) \<times> world \<times> Buffer" where
  "Guarantee rt w bb n =
     (if n < 0 then (Inl ErrGrow, w, bb)
      else (let bLen = bbLen bb; bCap = bbCap bb; bSize = wrap64 (bLen + n)
            in if bCap \<ge> bSize then (Inr (), w, bb)
               else if bSize > MaxInt32 then (Inl ErrTooLarge, w, bb)
               else (case Make rt (bs w) (mem w) bSize of
                       (Inl e, p1, M1) \<Rightarrow> (Inl e, \<lparr>bs = p1, mem = M1\<rparr>, bb)
                     | (Inr buf, p1, M1) \<Rightarrow>
                         (case appendSlice (growcap rt) M1 buf (B bb) of
                            (Inl e, M2) \<Rightarrow> (Inl e, \<lparr>bs = p1, mem = M2\<rparr>, bb)
                          | (Inr buf', M2) \<Rightarrow>
                              (case Release rt p1 (B bb) of
                                 (Inl e, p2) \<Rightarrow> (Inl e, \<lparr>bs = p2, mem = M2\<rparr>, bb)
                               | (Inr ok, p2) \<Rightarrow>
                                   (Inr (), \<lparr>bs = p2, mem = M2\<rparr>, bb\<lparr>B := buf'\<rparr>))))))"

definition Grow ::
    "runtime \<Rightarrow> world \<Rightarrow> Buffer \<Rightarrow> int \<Rightarrow> (error + unit) \<times> world \<times> Buffer" where
  "Grow rt w bb n =
     (case Guarantee rt w bb n of
        (Inl e, w', bb') \<Rightarrow> (Inl e, w', bb')
      | (Inr u, w', bb') \<Rightarrow>
          (case sliceTo (B bb') (wrap64 (bbLen bb' + n)) of
             Inl e \<Rightarrow> (Inl e, w', bb')
           | Inr s \<Rightarrow> (Inr (), w', bb'\<lparr>B := s\<rparr>)))"

definition Truncate :: "Buffer \<Rightarrow> int \<Rightarrow> (error + unit) \<times> Buffer" where
  "Truncate bb n =
     (if n < 0 \<or> n > bbLen bb then (Inl ErrTruncation, bb)
      else (case sliceTo (B bb) n of
              Inl e \<Rightarrow> (Inl e, bb)
            | Inr s \<Rightarrow> (Inr (), bb\<lparr>B := s\<rparr>)))"


text \<open>
  The reference count. The \<open>sync/atomic\<close> operations are taken one at a time: no other
  goroutine runs between them.
\<close>

definition AddInt64 :: "Buffer \<Rightarrow> 64 word \<Rightarrow> Buffer" where
  "AddInt64 bb delta = bb\<lparr>c := c bb + delta\<rparr>"

definition LoadInt64 :: "Buffer \<Rightarrow> 64 word" where
  "LoadInt64 bb = c bb"

definition StoreInt64 :: "Buffer \<Rightarrow> 64 word \<Rightarrow> Buffer" where
  "StoreInt64 bb val = bb\<lparr>c := val\<rparr>"

definition CompareAndSwapInt64 :: "Buffer \<Rightarrow> 64 word \<Rightarrow> 64 word \<Rightarrow> bool \<times> Buffer" where
  "CompareAndSwapInt64 bb old new =
     (if c bb = old then (True, bb\<lparr>c := new\<rparr>) else (False, bb))"

definition RefAdd :: "Buffer \<Rightarrow> 64 word \<Rightarrow> Buffer" where
  "RefAdd bb delta = AddInt64 bb delta"

definition RefInc :: "Buffer \<Rightarrow> Buffer" where
  "RefInc bb = RefAdd bb 1"

definition RefDec :: "Buffer \<Rightarrow> Buffer" where
  "RefDec bb = RefAdd bb (- 1)"

definition RefStore :: "Buffer \<Rightarrow> 64 word \<Rightarrow> Buffer" where
  "RefStore bb val = StoreInt64 bb val"

definition RefValue :: "Buffer \<Rightarrow> 64 word" where
  "RefValue bb = LoadInt64 bb"

definition RefReset :: "Buffer \<Rightarrow> Buffer" where
  "RefReset bb = StoreInt64 bb 0"

partial_function (option) RefSwapDec :: "Buffer \<Rightarrow> (64 word \<times> Buffer) option" where
  "RefSwapDec bb =
     (let c0 = LoadInt64 bb
      in case CompareAndSwapInt64 bb c0 (c0 - 1) of
           (swapped, bb') \<Rightarrow> if swapped then Some (c0, bb') else RefSwapDec bb')"

text \<open>
  An \<open>io.Reader\<close>, as the script of what it still has to deliver: each entry is a chunk
  of bytes and the error reported with its last byte (\<open>None\<close> for nil). A \<open>Read\<close> into
  \<open>k\<close> bytes takes the whole chunk at the head when it fits and its first \<open>k\<close> bytes
  with a nil error otherwise; a reader with nothing left reports \<open>EOF\<close>.
\<close>

type_synonym reader = "(byte list \<times> error option) list"

definition readerRead :: "reader \<Rightarrow> nat \<Rightarrow> (byte list \<times> error option) \<times> reader" where
  "readerRead r k =
     (case r of
        [] \<Rightarrow> (([], Some EOF), [])
      | (d, e) # rest \<Rightarrow>
          if length d \<le> k then ((d, e), rest)
          else ((take k d, None), (drop k d, e) # rest))"

text \<open>
  What a \<open>Read\<close> stores: the bytes \<open>d\<close> from address \<open>a\<close> on.
\<close>

definition writeBytes :: "memory \<Rightarrow> nat \<Rightarrow> byte list \<Rightarrow> memory" where
  "writeBytes M a d =
     M\<lparr>cells := (\<lambda>x. if a \<le> x \<and> x < a + length d then d ! (x - a) else cells M x)\<rparr>"

text \<open>
  The body of \<open>if n == bCap\<close> in \<open>ReadFrom\<close>: \<open>Inl\<close> is a return or a panic out of the
  loop, \<open>Inr\<close> the pool and memory, \<open>p\<close> and \<open>bCap\<close> the loop goes on with.
\<close>

definition growIfFull ::
    "runtime \<Rightarrow> world \<Rightarrow> slice \<Rightarrow> int \<Rightarrow> int
      \<Rightarrow> ((error + int \<times> error option) \<times> world) + (world \<times> slice \<times> int)" where
  "growIfFull rt w p n bCap =
     (if n = bCap
      then (if n = MaxInt32 then Inl (Inr (n, Some ErrTooLarge), w)
            else (let bCap1 = wrap64 (bCap * 2);
                      bCap2 = (if bCap1 > MaxInt32 then MaxInt32 else bCap1)
                  in case New rt (bs w) (mem w) bCap2 of
                       (Inl e, p1, M1) \<Rightarrow> Inl (Inl e, \<lparr>bs = p1, mem = M1\<rparr>)
                     | (Inr pNew, p1, M1) \<Rightarrow>
                         (case copySlice M1 pNew p of
                            (k, M2) \<Rightarrow>
                              (case Release rt p1 p of
                                 (Inl e, p2) \<Rightarrow> Inl (Inl e, \<lparr>bs = p2, mem = M2\<rparr>)
                               | (Inr ok, p2) \<Rightarrow> Inr (\<lparr>bs = p2, mem = M2\<rparr>, pNew, bCap2)))))
      else Inr (w, p, bCap))"

text \<open>
  The loop of \<open>ReadFrom\<close>. It ends only when the reader reports an error or the ceiling
  is reached: \<open>None\<close> is the run that never returns. The result is the panic, or the
  count and the error returned, with the pool and memory, the buffer and the reader.
\<close>

partial_function (option) readLoop ::
    "runtime \<Rightarrow> int \<Rightarrow> Buffer \<Rightarrow> world \<Rightarrow> reader \<Rightarrow> slice \<Rightarrow> int \<Rightarrow> int
      \<Rightarrow> ((error + int \<times> error option) \<times> world \<times> Buffer \<times> reader) option" where
  "readLoop rt bLen bb w r p n bCap =
     (case growIfFull rt w p n bCap of
        Inl (out, w1) \<Rightarrow> Some (out, w1, bb, r)
      | Inr (w1, p1, bCap1) \<Rightarrow>
          (case sliceFrom p1 n of
             Inl e \<Rightarrow> Some (Inl e, w1, bb, r)
           | Inr q \<Rightarrow>
               (case readerRead r (nat (Len q)) of
                  ((d, err), r1) \<Rightarrow>
                    (let w2 = w1\<lparr>mem := writeBytes (mem w1) (Data q) d\<rparr>;
                         n1 = n + int (length d)
                     in case err of
                          None \<Rightarrow> readLoop rt bLen bb w2 r1 p1 n1 bCap1
                        | Some e \<Rightarrow>
                            (case sliceTo p1 n1 of
                               Inl e' \<Rightarrow> Some (Inl e', w2, bb, r1)
                             | Inr s \<Rightarrow>
                                 Some (Inr (n1 - bLen, if e = EOF then None else Some e),
                                       w2, bb\<lparr>B := s\<rparr>, r1))))))"

definition ReadFrom ::
    "runtime \<Rightarrow> world \<Rightarrow> Buffer \<Rightarrow> reader
      \<Rightarrow> ((error + int \<times> error option) \<times> world \<times> Buffer \<times> reader) option" where
  "ReadFrom rt w bb r =
     (let bLen = bbLen bb; bCap = bbCap bb; n = bLen
      in case sliceTo (B bb) bCap of
           Inl e \<Rightarrow> Some (Inl e, w, bb, r)
         | Inr p \<Rightarrow> readLoop rt bLen bb w r p n bCap)"

section \<open>The specification's side\<close>

text \<open>
  The statements below compare the code with these definitions, which follow the
  specification's words and are not used by the model of the code.

  \<open>classCaps\<close> reads the capacities of a pool's classes, in order.
\<close>

definition classCaps :: "CapacityPools \<Rightarrow> int list" where
  "classCaps p = map capacity (pools p)"

text \<open>
  The class list as the specification words it: one class per doubling step starting at
  \<open>minSize\<close> while the step is below \<open>maxSize\<close>, then the terminal class. This is
  the specification's side of the comparison, over unbounded integers.
\<close>

function doubling :: "int \<Rightarrow> int \<Rightarrow> int list" where
  "doubling i mx = (if 0 < i \<and> i < mx then i # doubling (2 * i) mx else [])"
  by pat_completeness auto
termination
  by (relation "measure (\<lambda>(i, mx). nat (mx - i))") auto

definition specClasses :: "int \<Rightarrow> int \<Rightarrow> int list" where
  "specClasses mn mx = doubling mn mx @ [mx]"

text \<open>
  The clamping of the constructor's arguments: \<open>minSize\<close> up to 2, \<open>maxSize\<close> up to
  \<open>minSize\<close>.
\<close>

definition clampMin :: "int \<Rightarrow> int" where
  "clampMin minSize0 = max minSize0 2"

definition clampMax :: "int \<Rightarrow> int \<Rightarrow> int" where
  "clampMax minSize0 maxSize0 = max maxSize0 (clampMin minSize0)"

text \<open>
  The documented class selection for a size up to \<open>maxSize\<close>: the smallest class for
  \<open>s \<le> minSize\<close>, the terminal class for \<open>s = maxSize\<close>, else the class at index
  \<open>ceil(log2(s / minSize))\<close> clamped into \<open>[0, maxIndex]\<close>.
\<close>

definition ruleIndex :: "CapacityPools \<Rightarrow> int \<Rightarrow> int" where
  "ruleIndex p s =
     (if s \<le> minSize p then 0
      else if s = maxSize p then maxIndex p
      else max 0 (min (maxIndex p) (ceilLog2 s (minSize p))))"

text \<open>
  \<open>sameClasses p0 p\<close>: \<open>p\<close> is a state of the pool \<open>p0\<close>, with the same bounds and
  the same classes and any blocks in its stores. \<open>wfPools\<close>: the classes are those of
  the specification for the pool's own bounds.
\<close>

definition sameClasses :: "CapacityPools \<Rightarrow> CapacityPools \<Rightarrow> bool" where
  "sameClasses p0 p \<longleftrightarrow>
     minSize p = minSize p0 \<and> maxSize p = maxSize p0 \<and> maxIndex p = maxIndex p0
     \<and> classCaps p = classCaps p0"

definition wfPools :: "CapacityPools \<Rightarrow> bool" where
  "wfPools p \<longleftrightarrow>
     0 < minSize p \<and> minSize p \<le> maxSize p
     \<and> maxIndex p = int (length (pools p)) - 1
     \<and> classCaps p = specClasses (minSize p) (maxSize p)"

text \<open>
  The states from which the loop of \<open>ReadFrom\<close> cannot make progress: nothing read,
  a capacity of 0, and a reader whose next chunk is not empty.
\<close>

definition stuck :: "world \<Rightarrow> reader \<Rightarrow> slice \<Rightarrow> int \<Rightarrow> int \<Rightarrow> bool" where
  "stuck w r p n bCap \<longleftrightarrow>
     n = 0 \<and> bCap = 0 \<and> 0 \<le> Cap p \<and> wfPools (bs w) \<and> r \<noteq> [] \<and> fst (hd r) \<noteq> []"

text \<open>
  What a reader's script says \<open>ReadFrom\<close> is to append and to return: the bytes up to
  and with the first chunk that carries an error, and that error, end-of-stream being
  folded into nil. \<open>steps\<close> bounds the number of reads.
\<close>

fun delivered :: "reader \<Rightarrow> byte list" where
  "delivered [] = []"
| "delivered ((d, None) # rest) = d @ delivered rest"
| "delivered ((d, Some e) # rest) = d"

fun outcome :: "reader \<Rightarrow> error option" where
  "outcome [] = None"
| "outcome ((d, None) # rest) = outcome rest"
| "outcome ((d, Some e) # rest) = (if e = EOF then None else Some e)"

fun steps :: "reader \<Rightarrow> nat" where
  "steps [] = 0"
| "steps ((d, e) # rest) = Suc (length d + steps rest)"

text \<open>
  What the theorems on the class index take from \<open>math.Log2\<close>: on the \<open>float64\<close> values
  from 1 to \<open>2 ^ 40\<close> it is exact at the powers of two (the library returns the exponent
  there) and within \<open>2 ^ -44\<close> of the logarithm elsewhere.
\<close>

definition accurateLog2 :: "(real \<Rightarrow> real) \<Rightarrow> bool" where
  "accurateLog2 L \<longleftrightarrow>
     (\<forall>j::nat. j \<le> 40 \<longrightarrow> L (2 ^ j) = real j)
     \<and> (\<forall>x. f64 x = x \<and> 1 \<le> x \<and> x \<le> 2 ^ 40 \<longrightarrow> \<bar>L x - log 2 x\<bar> \<le> 1 / 2 ^ 44)"

text \<open>Every block stored in the pool lies in allocated memory.\<close>

definition poolInMemory :: "CapacityPools \<Rightarrow> memory \<Rightarrow> bool" where
  "poolInMemory p M \<longleftrightarrow>
     (\<forall>bp \<in> set (pools p). \<forall>ptr \<in> set (pool bp). ptr + nat (capacity bp) \<le> brk M)"

section \<open>Values for the witnesses and counterexamples\<close>

text \<open>
  A memory with nothing allocated, and one whose cell at address \<open>a\<close> holds the byte
  \<open>a\<close>; a run time that always takes the first stored item and reallocates to the exact
  length, with a \<open>math.Log2\<close> that returns the logarithm itself.
\<close>

definition emptyMemory :: memory where
  "emptyMemory = \<lparr>cells = (\<lambda>a. 0), brk = 1\<rparr>"

definition countingMemory :: memory where
  "countingMemory = \<lparr>cells = of_nat, brk = 16\<rparr>"

definition firstItem :: "nat list \<Rightarrow> nat" where
  "firstItem xs = 0"

definition exactCap :: "int \<Rightarrow> int \<Rightarrow> int" where
  "exactCap old need = need"

definition exactLog2 :: "real \<Rightarrow> real" where
  "exactLog2 x = log 2 x"

definition goRuntime :: runtime where
  "goRuntime = \<lparr>pick = firstItem, growcap = exactCap, Log2 = exactLog2\<rparr>"

text \<open>
  The pool of \<open>configure(min=2, max=8)\<close>, and the pool \<open>NewCapacityPools\<close> returns for
  \<open>minSize = 11 * 2 ^ 59\<close> and \<open>maxSize = 3 * 2 ^ 61\<close>, where the doubling wraps.
\<close>

definition pool28 :: CapacityPools where
  "pool28 = \<lparr>minSize = 2, maxSize = 8, maxIndex = 2,
              pools = [newBytesPool 2, newBytesPool 4, newBytesPool 8]\<rparr>"

definition wrappedPool :: CapacityPools where
  "wrappedPool =
     \<lparr>minSize = 6341068275337658368, maxSize = 6917529027641081856, maxIndex = 2,
      pools = [newBytesPool 6341068275337658368, newBytesPool (- 5764607523034234880),
               newBytesPool 6917529027641081856]\<rparr>"

text \<open>The pool of \<open>minSize = 2 ^ 52\<close> and \<open>maxSize = 2 ^ 54\<close>.\<close>

definition roundedPool :: CapacityPools where
  "roundedPool =
     \<lparr>minSize = 4503599627370496, maxSize = 18014398509481984, maxIndex = 2,
      pools = [newBytesPool 4503599627370496, newBytesPool 9007199254740992,
               newBytesPool 18014398509481984]\<rparr>"

definition idleWorld :: world where
  "idleWorld = \<lparr>bs = pool28, mem = emptyMemory\<rparr>"

definition countingWorld :: world where
  "countingWorld = \<lparr>bs = pool28, mem = countingMemory\<rparr>"


definition wideBuffer :: Buffer where
  "wideBuffer = \<lparr>B = \<lparr>Data = 1, Len = 0, Cap = 2147483648\<rparr>, c = 0\<rparr>"

definition smallBuffer :: Buffer where
  "smallBuffer = \<lparr>B = \<lparr>Data = 1, Len = 3, Cap = 4\<rparr>, c = 0\<rparr>"

definition buffer123 :: Buffer where
  "buffer123 = \<lparr>B = \<lparr>Data = 1, Len = 3, Cap = 3\<rparr>, c = 0\<rparr>"



definition zeroBuffer :: Buffer where
  "zeroBuffer = \<lparr>B = nilSlice, c = 0\<rparr>"

definition oneByteReader :: reader where
  "oneByteReader = [([97], None)]"

text \<open>A reader that delivers \<open>[4, 5]\<close> and then \<open>[6, 7, 8]\<close> with end-of-stream.\<close>

definition twoChunkReader :: reader where
  "twoChunkReader = [([4, 5], None), ([6, 7, 8], Some EOF)]"

section \<open>Construction of the classes\<close>

lemma wrap64_id: "int64 x \<Longrightarrow> wrap64 x = x"
  by (simp add: wrap64_def int64_def)

declare doubling.simps [simp del] clog.simps [simp del]

lemma classLoop_doubling:
  "0 < i \<Longrightarrow> mx \<le> 2 ^ 62 \<Longrightarrow>
   classLoop i mx ps = Some (ps @ map newBytesPool (doubling i mx))"
proof (induction i mx arbitrary: ps rule: doubling.induct)
  case (1 i mx)
  show ?case
  proof (cases "i < mx")
    case True
    then have w: "wrap64 (i * 2) = 2 * i"
      using "1.prems" by (simp add: wrap64_id int64_def)
    have "classLoop i mx ps = classLoop (2 * i) mx (ps @ [newBytesPool i])"
      using True w by (subst classLoop.simps) simp
    also have "\<dots> = Some ((ps @ [newBytesPool i]) @ map newBytesPool (doubling (2 * i) mx))"
      using "1.IH" [of "ps @ [newBytesPool i]"] True "1.prems" by simp
    also have "\<dots> = Some (ps @ map newBytesPool (doubling i mx))"
      using True "1.prems" by (subst (2) doubling.simps) simp
    finally show ?thesis .
  next
    case False
    then show ?thesis
      by (subst classLoop.simps, subst doubling.simps) simp
  qed
qed

lemma doubling_nth:
  "k < length (doubling i mx) \<Longrightarrow> doubling i mx ! k = i * 2 ^ k"
proof (induction i mx arbitrary: k rule: doubling.induct)
  case (1 i mx)
  show ?case
  proof (cases "0 < i \<and> i < mx")
    case True
    then have d: "doubling i mx = i # doubling (2 * i) mx"
      by (subst doubling.simps) simp
    show ?thesis
    proof (cases k)
      case 0
      then show ?thesis by (simp add: d)
    next
      case (Suc j)
      then have "j < length (doubling (2 * i) mx)" using "1.prems" d by simp
      then have "doubling (2 * i) mx ! j = (2 * i) * 2 ^ j" using "1.IH" True by simp
      then show ?thesis by (simp add: d Suc)
    qed
  next
    case False
    then have "doubling i mx = []" by (subst doubling.simps) simp
    then show ?thesis using "1.prems" by simp
  qed
qed

lemma doubling_length_iff:
  "0 < i \<Longrightarrow> k < length (doubling i mx) \<longleftrightarrow> i * 2 ^ k < mx"
proof (induction i mx arbitrary: k rule: doubling.induct)
  case (1 i mx)
  show ?case
  proof (cases "i < mx")
    case True
    then have d: "doubling i mx = i # doubling (2 * i) mx"
      using "1.prems" by (subst doubling.simps) simp
    show ?thesis
    proof (cases k)
      case 0
      then show ?thesis using True by (simp add: d)
    next
      case (Suc j)
      have e: "(2 * i) * 2 ^ j = i * 2 ^ Suc j" by simp
      have "j < length (doubling (2 * i) mx) \<longleftrightarrow> (2 * i) * 2 ^ j < mx"
        using "1.IH" [of j] True "1.prems" by simp
      then have "Suc j < length (i # doubling (2 * i) mx) \<longleftrightarrow> i * 2 ^ Suc j < mx"
        unfolding e by simp
      then show ?thesis unfolding d Suc .
    qed
  next
    case False
    then have e: "doubling i mx = []" by (subst doubling.simps) simp
    have "i \<le> i * 2 ^ k" using "1.prems" by (simp add: mult_le_cancel_left1)
    then show ?thesis using False e by simp
  qed
qed

lemma doubling_length_clog: "int (length (doubling i mx)) = clog i mx"
proof (induction i mx rule: doubling.induct)
  case (1 i mx)
  show ?case
  proof (cases "0 < i \<and> i < mx")
    case True
    then show ?thesis using "1.IH"
      by (subst doubling.simps, subst clog.simps) simp
  next
    case False
    then show ?thesis by (subst doubling.simps, subst clog.simps) auto
  qed
qed

lemma doubling_sorted: "sorted (doubling i mx)"
proof -
  have "\<And>a b. a < b \<Longrightarrow> b < length (doubling i mx) \<Longrightarrow> doubling i mx ! a \<le> doubling i mx ! b"
  proof -
    fix a b assume ab: "a < b" "b < length (doubling i mx)"
    then have ne: "doubling i mx \<noteq> []" by auto
    then have pos: "0 < i" by (subst (asm) doubling.simps) (auto split: if_splits)
    have "(2::int) ^ a \<le> 2 ^ b" using ab by (simp add: power_increasing)
    then have "i * 2 ^ a \<le> i * 2 ^ b" using pos by simp
    then show "doubling i mx ! a \<le> doubling i mx ! b"
      using ab by (simp add: doubling_nth)
  qed
  then show ?thesis by (simp add: sorted_iff_nth_mono_less)
qed

lemma doubling_less: "x \<in> set (doubling i mx) \<Longrightarrow> x < mx"
proof (induction i mx rule: doubling.induct)
  case (1 i mx)
  then show ?case
    by (subst (asm) (2) doubling.simps) (auto split: if_splits)
qed


lemma capacity_newBytesPool: "map capacity (map newBytesPool xs) = xs"
  by (induction xs) (simp_all add: newBytesPool_def)

lemma NewCapacityPools_Some:
  assumes "clampMax a b \<le> 2 ^ 62"
  shows "NewCapacityPools a b =
           Some \<lparr>minSize = clampMin a, maxSize = clampMax a b,
                 maxIndex = int (length (doubling (clampMin a) (clampMax a b))),
                 pools = map newBytesPool (specClasses (clampMin a) (clampMax a b))\<rparr>"
proof -
  have mn: "(if a < minCapacity then minCapacity else a) = clampMin a"
    by (simp add: minCapacity_def clampMin_def max_def)
  have mx: "(if b < clampMin a then clampMin a else b) = clampMax a b"
    by (simp add: clampMax_def max_def)
  have pos: "0 < clampMin a" by (simp add: clampMin_def)
  show ?thesis
    unfolding NewCapacityPools_def mn mx Let_def
    using classLoop_doubling [OF pos assms, of "[]"]
    by (simp add: specClasses_def)
qed

text \<open>
  Claim C3, amended. When the clamped maximum is at most \<open>2 ^ 62\<close>, so that no doubling
  step leaves the 64-bit range, \<open>NewCapacityPools\<close> returns a pool whose \<open>minSize\<close> is
  the argument clamped up to 2 and whose \<open>maxSize\<close> is the argument clamped up to
  \<open>minSize\<close>; its classes are exactly \<open>minSize * 2 ^ k\<close>, in ascending order, for every
  \<open>k\<close> with \<open>minSize * 2 ^ k < maxSize\<close>, followed by one terminal class of capacity
  \<open>maxSize\<close>. The sequence is strictly ascending and its last class is \<open>maxSize\<close>.
\<close>

theorem NewCapacityPools_classes:
  assumes "clampMax a b \<le> 2 ^ 62"
  shows "\<exists>p. NewCapacityPools a b = Some p
           \<and> minSize p = clampMin a \<and> maxSize p = clampMax a b
           \<and> maxIndex p = int (length (pools p)) - 1
           \<and> classCaps p = specClasses (clampMin a) (clampMax a b)
           \<and> (\<forall>k. k < length (classCaps p) - 1 \<longleftrightarrow> clampMin a * 2 ^ k < clampMax a b)
           \<and> (\<forall>k. k < length (classCaps p) - 1 \<longrightarrow> classCaps p ! k = clampMin a * 2 ^ k)
           \<and> sorted_wrt (<) (classCaps p)
           \<and> last (classCaps p) = clampMax a b"
proof -
  let ?mn = "clampMin a" and ?mx = "clampMax a b"
  let ?p = "\<lparr>minSize = ?mn, maxSize = ?mx, maxIndex = int (length (doubling ?mn ?mx)),
             pools = map newBytesPool (specClasses ?mn ?mx)\<rparr>"
  have pos: "0 < ?mn" by (simp add: clampMin_def)
  have caps: "classCaps ?p = doubling ?mn ?mx @ [?mx]"
    using capacity_newBytesPool [of "specClasses ?mn ?mx"]
    by (simp add: classCaps_def specClasses_def)
  have len: "length (classCaps ?p) - 1 = length (doubling ?mn ?mx)"
    by (simp add: caps)
  have nth: "\<forall>k. k < length (classCaps ?p) - 1 \<longrightarrow> classCaps ?p ! k = ?mn * 2 ^ k"
    unfolding len by (simp add: caps nth_append doubling_nth)
  have iff: "\<forall>k. k < length (classCaps ?p) - 1 \<longleftrightarrow> ?mn * 2 ^ k < ?mx"
    unfolding len using doubling_length_iff [OF pos] by simp
  have "sorted_wrt (<) (doubling ?mn ?mx)"
    unfolding sorted_wrt_iff_nth_less
  proof (intro allI impI)
    fix i j assume ij: "i < j" "j < length (doubling ?mn ?mx)"
    have "(2::int) ^ i < 2 ^ j" using ij by simp
    then have "?mn * 2 ^ i < ?mn * 2 ^ j" using pos by simp
    then show "doubling ?mn ?mx ! i < doubling ?mn ?mx ! j"
      using ij by (simp add: doubling_nth)
  qed
  then have srt: "sorted_wrt (<) (classCaps ?p)"
    by (auto simp: caps sorted_wrt_append dest: doubling_less)
  have "NewCapacityPools a b = Some ?p"
    by (rule NewCapacityPools_Some [OF assms])
  moreover have "maxIndex ?p = int (length (pools ?p)) - 1"
    by (simp add: specClasses_def)
  moreover have "classCaps ?p = specClasses ?mn ?mx"
    unfolding caps by (simp add: specClasses_def)
  moreover have "last (classCaps ?p) = ?mx" by (simp add: caps)
  ultimately show ?thesis using nth iff srt
    by (intro exI [of _ ?p]) simp
qed

theorem NewCapacityPools_classes_witness:
  "clampMax 2 8 \<le> 2 ^ 62 \<and> map_option classCaps (NewCapacityPools 2 8) = Some [2, 4, 8]"
proof -
  have h: "clampMax 2 8 \<le> 2 ^ 62" by (simp add: clampMax_def clampMin_def)
  have "specClasses (clampMin 2) (clampMax 2 8) = [2, 4, 8]"
    by (simp add: specClasses_def clampMax_def clampMin_def doubling.simps)
  then show ?thesis using h NewCapacityPools_classes [OF h] by auto
qed

text \<open>
  Claim C3 as stated fails beyond that bound: with \<open>minSize = 11 * 2 ^ 59\<close> and
  \<open>maxSize = 3 * 2 ^ 61\<close> the doubling wraps to a negative capacity and then to
  \<open>maxSize\<close> itself, and the classes returned are not in ascending order.
\<close>

theorem NewCapacityPools_overflow_counterexample:
  "map_option (sorted \<circ> classCaps) (NewCapacityPools 6341068275337658368 6917529027641081856)
     = Some False"
  by (simp add: NewCapacityPools_def minCapacity_def classLoop.simps wrap64_def
      newBytesPool_def classCaps_def)

lemma NewCapacityPools_overflow_value:
  "map_option classCaps (NewCapacityPools 6341068275337658368 6917529027641081856)
     = Some [6341068275337658368, - 5764607523034234880, 6917529027641081856]"
  by (simp add: NewCapacityPools_def minCapacity_def classLoop.simps wrap64_def
      newBytesPool_def classCaps_def)

lemma classLoop_zero:
  assumes ret: "classLoop i mx ps = Some y"
  shows "\<not> (i = 0 \<and> 0 < mx)"
proof (rule classLoop.raw_induct [where P = "\<lambda>i mx ps y. \<not> (i = 0 \<and> 0 < mx)", OF _ ret])
  fix f :: "int \<Rightarrow> int \<Rightarrow> bytesPool list \<Rightarrow> bytesPool list option"
  fix i mx ps y
  assume IH: "\<And>i mx ps y. f i mx ps = Some y \<Longrightarrow> \<not> (i = 0 \<and> 0 < mx)"
  assume body: "(if i < mx then f (wrap64 (i * 2)) mx (ps @ [newBytesPool i]) else Some ps) = Some y"
  show "\<not> (i = 0 \<and> 0 < mx)"
  proof
    assume z: "i = 0 \<and> 0 < mx"
    then have "f 0 mx (ps @ [newBytesPool i]) = Some y"
      using body by (simp add: wrap64_def)
    from IH [OF this] z show False by simp
  qed
qed

lemma classLoop_zero_None: "0 < mx \<Longrightarrow> classLoop 0 mx ps = None"
  using classLoop_zero [of 0 mx ps] by (cases "classLoop 0 mx ps") auto

lemma classLoop_power_None:
  "k \<le> 62 \<Longrightarrow> classLoop (2 ^ k) 9223372036854775807 ps = None"
proof (induction "62 - k" arbitrary: k ps)
  case 0
  then have k: "k = 62" by simp
  have a: "classLoop (2 ^ 62) 9223372036854775807 ps
      = classLoop (- 9223372036854775808) 9223372036854775807 (ps @ [newBytesPool (2 ^ 62)])"
    by (subst classLoop.simps) (simp add: wrap64_def)
  have b: "classLoop (- 9223372036854775808) 9223372036854775807 qs
      = classLoop 0 9223372036854775807 (qs @ [newBytesPool (- 9223372036854775808)])" for qs
    by (subst classLoop.simps) (simp add: wrap64_def)
  show ?case unfolding k a b by (rule classLoop_zero_None) simp
next
  case (Suc m)
  then have k: "k < 62" by simp
  then have "(2::int) ^ k < 2 ^ 62"
    by (simp only: power_strict_increasing_iff one_less_numeral_iff semiring_norm)
  then have p2: "(2::int) ^ k < 4611686018427387904" by simp
  have pos: "(0::int) < 2 ^ k" by simp
  have lt: "(2::int) ^ k < 9223372036854775807" using p2 by linarith
  have lo: "- 9223372036854775808 \<le> (2::int) ^ k * 2" using pos by linarith
  have hi: "(2::int) ^ k * 2 < 9223372036854775808" using p2 by linarith
  have "int64 (2 ^ k * 2)" using lo hi by (simp add: int64_def)
  then have w: "wrap64 (2 ^ k * 2) = 2 ^ Suc k" by (simp add: wrap64_id)
  have "classLoop (2 ^ k) 9223372036854775807 ps
      = classLoop (2 ^ Suc k) 9223372036854775807 (ps @ [newBytesPool (2 ^ k)])"
    using lt w by (subst classLoop.simps) simp
  also have "\<dots> = None" using Suc k by (intro Suc.hyps(1)) simp_all
  finally show ?case .
qed

text \<open>
  With \<open>maxSize = math.MaxInt64\<close> the doubling reaches \<open>2 ^ 62\<close>, wraps to \<open>- 2 ^ 63\<close> and
  then to 0, where it stays: \<open>NewCapacityPools(2, math.MaxInt64)\<close> never returns.
\<close>

lemma NewCapacityPools_MaxInt64_diverges: "NewCapacityPools 2 9223372036854775807 = None"
  using classLoop_power_None [of 1 "[]"]
  by (simp add: NewCapacityPools_def minCapacity_def)

section \<open>Class selection\<close>

lemma clog_length: "clog i sz = int (length (doubling i sz))"
  by (simp add: doubling_length_clog)

lemma clog_nonneg: "0 \<le> clog i sz"
  by (simp add: clog_length)

lemma clog_upper:
  assumes "0 < m"
  shows "sz \<le> m * 2 ^ nat (clog m sz)"
proof -
  have "\<not> length (doubling m sz) < length (doubling m sz)" by simp
  then have "\<not> m * 2 ^ length (doubling m sz) < sz"
    using doubling_length_iff [OF assms, of "length (doubling m sz)" sz] by simp
  then show ?thesis by (simp add: clog_length)
qed

lemma clog_lower:
  assumes "0 < m" "m < sz"
  shows "1 \<le> clog m sz" "m * 2 ^ (nat (clog m sz) - 1) < sz"
proof -
  have "0 < length (doubling m sz)"
    using doubling_length_iff [OF assms(1), of 0 sz] assms(2) by simp
  then show "1 \<le> clog m sz" by (cases "doubling m sz") (auto simp: clog_length)
  have "length (doubling m sz) - 1 < length (doubling m sz)"
    using \<open>0 < length (doubling m sz)\<close> by simp
  then show "m * 2 ^ (nat (clog m sz) - 1) < sz"
    using doubling_length_iff [OF assms(1), of "length (doubling m sz) - 1" sz]
    by (simp add: clog_length)
qed

lemma clog_mono:
  assumes "0 < m" "s \<le> t"
  shows "clog m s \<le> clog m t"
proof (rule ccontr)
  assume "\<not> clog m s \<le> clog m t"
  then have "length (doubling m t) < length (doubling m s)" by (simp add: clog_length)
  then have "m * 2 ^ length (doubling m t) < s"
    using doubling_length_iff [OF assms(1)] by simp
  then have "m * 2 ^ length (doubling m t) < t" using assms(2) by simp
  then have "length (doubling m t) < length (doubling m t)"
    using doubling_length_iff [OF assms(1), of "length (doubling m t)" t] by simp
  then show False by simp
qed

lemma clog_unique:
  assumes "0 < m" "m * 2 ^ k < sz" "sz \<le> m * 2 ^ Suc k"
  shows "clog m sz = int (Suc k)"
proof -
  have a: "k < length (doubling m sz)"
    using doubling_length_iff [OF assms(1)] assms(2) by simp
  have "\<not> Suc k < length (doubling m sz)"
    using doubling_length_iff [OF assms(1), of "Suc k" sz] assms(3) by simp
  with a have "length (doubling m sz) = Suc k" by simp
  then show ?thesis by (simp add: clog_length)
qed

lemma ceilLog2_real:
  assumes "0 < m" "m < s"
  shows "ceilLog2 s m = \<lceil>log 2 (real_of_int s / real_of_int m)\<rceil>"
proof -
  let ?k = "nat (clog m s)"
  have k1: "1 \<le> clog m s" and lo: "m * 2 ^ (?k - 1) < s"
    using clog_lower [OF assms] by auto
  have up: "s \<le> m * 2 ^ ?k" by (rule clog_upper [OF assms(1)])
  have mpos: "0 < real_of_int m" using assms by simp
  have "real_of_int (m * 2 ^ (?k - 1)) < real_of_int s" using lo by linarith
  then have "2 ^ (?k - 1) < real_of_int s / real_of_int m"
    using mpos by (simp add: pos_less_divide_eq mult.commute)
  then have "log 2 (2 ^ (?k - 1)) < log 2 (real_of_int s / real_of_int m)"
    by (subst log_less_cancel_iff) (use mpos assms in auto)
  then have l: "real (?k - 1) < log 2 (real_of_int s / real_of_int m)"
    by (simp add: log_nat_power)
  have "real_of_int s \<le> real_of_int (m * 2 ^ ?k)" using up by linarith
  then have "real_of_int s / real_of_int m \<le> 2 ^ ?k"
    using mpos by (simp add: pos_divide_le_eq mult.commute)
  then have "log 2 (real_of_int s / real_of_int m) \<le> log 2 (2 ^ ?k)"
    by (subst log_le_cancel_iff) (use mpos assms in auto)
  then have u: "log 2 (real_of_int s / real_of_int m) \<le> real ?k"
    by (simp add: log_nat_power)
  have "\<lceil>log 2 (real_of_int s / real_of_int m)\<rceil> = int ?k"
    using l u k1 by (intro ceiling_unique) (auto simp: of_nat_diff)
  then show ?thesis using k1 by (simp add: ceilLog2_def)
qed

text \<open>
  The \<open>float64\<close> index of \<open>getPool\<close>: rounding to \<open>float64\<close> is within half a unit in the
  last place and exact on the integers below \<open>2 ^ 53\<close> and on the powers of two, so for
  sizes below \<open>2 ^ 40\<close> the quotient is so far from the next power of two that an accurate
  \<open>math.Log2\<close> is followed by the ceiling of the exact logarithm (lemma \<open>log2ceil_exact\<close>).
\<close>

lemma roundEven_err: "\<bar>of_int (roundEven r) - r\<bar> \<le> 1 / 2"
  unfolding roundEven_def Let_def by (auto; linarith)

lemma roundEven_int: "roundEven (of_int n) = n"
  by (simp add: roundEven_def)

lemma expo_bounds:
  assumes "x \<noteq> 0"
  shows "2 powr of_int (expo x) \<le> \<bar>x\<bar>" "\<bar>x\<bar> < 2 powr (of_int (expo x) + 1)"
proof -
  have p: "0 < \<bar>x\<bar>" using assms by simp
  have "of_int (expo x) \<le> log 2 \<bar>x\<bar>" by (simp add: expo_def)
  then have "2 powr of_int (expo x) \<le> 2 powr log 2 \<bar>x\<bar>" by (subst powr_le_cancel_iff) simp_all
  then show "2 powr of_int (expo x) \<le> \<bar>x\<bar>" using p by simp
  have "log 2 \<bar>x\<bar> < of_int (expo x) + 1" by (simp add: expo_def)
  then have "2 powr log 2 \<bar>x\<bar> < 2 powr (of_int (expo x) + 1)" by (subst powr_less_cancel_iff) simp_all
  then show "\<bar>x\<bar> < 2 powr (of_int (expo x) + 1)" using p by simp
qed

lemma expo_eq:
  assumes "2 ^ k \<le> \<bar>x\<bar>" "\<bar>x\<bar> < 2 ^ Suc k"
  shows "expo x = int k"
proof -
  have p: "0 < \<bar>x\<bar>" using assms(1) zero_less_power [of "2::real" k] by linarith
  have "log 2 (2 ^ k) \<le> log 2 \<bar>x\<bar>" using assms(1) p by (subst log_le_cancel_iff) simp_all
  then have a: "real k \<le> log 2 \<bar>x\<bar>" by (simp add: log_nat_power)
  have "log 2 \<bar>x\<bar> < log 2 (2 ^ Suc k)" using assms(2) p by (subst log_less_cancel_iff) simp_all
  moreover have "log 2 ((2::real) ^ Suc k) = real (Suc k)" by (subst log_nat_power) simp_all
  ultimately have b: "log 2 \<bar>x\<bar> < real k + 1" by simp
  show ?thesis unfolding expo_def using a b by (intro floor_unique) simp_all
qed

lemma ulp_pos: "0 < ulp x"
  by (simp add: ulp_def)

lemma ulp_le:
  assumes "x \<noteq> 0"
  shows "ulp x \<le> \<bar>x\<bar> / 2 ^ 52"
proof -
  have "ulp x = 2 powr of_int (expo x) / 2 ^ 52"
    by (simp add: ulp_def powr_diff)
  then show ?thesis using expo_bounds(1) [OF assms] by (simp add: divide_right_mono)
qed

lemma f64_err: "\<bar>f64 x - x\<bar> \<le> \<bar>x\<bar> / 2 ^ 53"
proof (cases "x = 0")
  case True then show ?thesis by (simp add: f64_def)
next
  case False
  let ?u = "ulp x"
  have u: "0 < ?u" by (rule ulp_pos)
  have "f64 x - x = (of_int (roundEven (x / ?u)) - x / ?u) * ?u"
    using False u by (simp add: f64_def algebra_simps)
  then have "\<bar>f64 x - x\<bar> = \<bar>of_int (roundEven (x / ?u)) - x / ?u\<bar> * ?u"
    using u by (simp add: abs_mult)
  also have "\<dots> \<le> 1 / 2 * ?u"
    using roundEven_err [of "x / ?u"] u by (intro mult_right_mono) simp_all
  also have "\<dots> \<le> 1 / 2 * (\<bar>x\<bar> / 2 ^ 52)" using ulp_le [OF False] by simp
  finally show ?thesis by simp
qed

lemma f64_exact:
  assumes "x / ulp x = of_int n"
  shows "f64 x = x"
proof (cases "x = 0")
  case True then show ?thesis by (simp add: f64_def)
next
  case False
  have u: "0 < ulp x" by (rule ulp_pos)
  have "f64 x = of_int n * ulp x" using False assms by (simp add: f64_def roundEven_int)
  also have "\<dots> = x" using assms [symmetric] u by simp
  finally show ?thesis .
qed

lemma f64_scaled:
  assumes "2 ^ k \<le> \<bar>x\<bar>" "\<bar>x\<bar> < 2 ^ Suc k" "x * 2 ^ 52 / 2 ^ k = of_int n"
  shows "f64 x = x"
proof -
  have e: "expo x = int k" by (rule expo_eq [OF assms(1,2)])
  have u: "ulp x = 2 ^ k / 2 ^ 52" by (simp add: ulp_def e powr_diff powr_realpow)
  have "x / ulp x = x * 2 ^ 52 / 2 ^ k" unfolding u by simp
  then have "x / ulp x = of_int n" using assms(3) by simp
  then show ?thesis by (rule f64_exact)
qed

lemma f64_int:
  assumes "\<bar>n\<bar> < 2 ^ 53"
  shows "f64 (of_int n) = of_int n"
proof (cases "n = 0")
  case True then show ?thesis by (simp add: f64_def)
next
  case False
  let ?x = "real_of_int n"
  let ?e = "expo ?x"
  have x0: "?x \<noteq> 0" using False by simp
  have "1 \<le> \<bar>?x\<bar>" using False by (simp flip: of_int_abs)
  then have "(2::real) powr 0 < 2 powr (of_int ?e + 1)" using expo_bounds(2) [OF x0] by simp
  then have "(0::real) < of_int ?e + 1" by (subst (asm) powr_less_cancel_iff) simp_all
  then have e0: "0 \<le> ?e" by linarith
  have "\<bar>?x\<bar> < 2 ^ 53" using assms by (metis of_int_abs of_int_less_numeral_power_cancel_iff)
  then have "(2::real) powr of_int ?e < 2 powr 53" using expo_bounds(1) [OF x0] by (simp add: powr_realpow [symmetric])
  then have "real_of_int ?e < 53" by (subst (asm) powr_less_cancel_iff) simp_all
  then have e52: "?e \<le> 52" by linarith
  define j where "j = nat (52 - ?e)"
  have "real_of_int ?e - 52 = - real j" using e52 by (simp add: j_def)
  then have "ulp ?x = 2 powr (- real j)" by (simp add: ulp_def)
  then have "ulp ?x = 1 / 2 ^ j" by (simp add: powr_minus powr_realpow divide_inverse)
  then have "?x / ulp ?x = of_int (n * 2 ^ j)" by simp
  then show ?thesis by (rule f64_exact)
qed

lemma f64_pow2: "f64 (2 ^ k) = 2 ^ k"
proof -
  have "(2::real) ^ k * 2 ^ 52 / 2 ^ k = of_int (2 ^ 52)" by simp
  then show ?thesis by (intro f64_scaled [where k = k and n = "2 ^ 52"]) simp_all
qed

lemma expo_unique:
  assumes "2 powr of_int e \<le> \<bar>x\<bar>" "\<bar>x\<bar> < 2 powr (of_int e + 1)"
  shows "expo x = e"
proof -
  have p: "0 < \<bar>x\<bar>" using assms(1) powr_gt_zero [of 2 "of_int e"] by linarith
  have "log 2 (2 powr of_int e) \<le> log 2 \<bar>x\<bar>" using assms(1) p by (subst log_le_cancel_iff) simp_all
  then have a: "of_int e \<le> log 2 \<bar>x\<bar>" by simp
  have "log 2 \<bar>x\<bar> < log 2 (2 powr (of_int e + 1))" using assms(2) p by (subst log_less_cancel_iff) simp_all
  then have b: "log 2 \<bar>x\<bar> < of_int e + 1" by simp
  show ?thesis unfolding expo_def using a b by (intro floor_unique) simp_all
qed

lemma roundEven_floor: "\<lfloor>r\<rfloor> \<le> roundEven r \<and> roundEven r \<le> \<lfloor>r\<rfloor> + 1"
  by (simp add: roundEven_def Let_def)

lemma f64_idem:
  assumes "0 < x"
  shows "f64 (f64 x) = f64 x"
proof -
  let ?e = "expo x" and ?u = "ulp x"
  let ?n = "roundEven (x / ?u)"
  have x0: "x \<noteq> 0" using assms by simp
  have u: "0 < ?u" by (rule ulp_pos)
  have ue: "2 ^ 52 * ?u = 2 powr of_int ?e" by (simp add: ulp_def powr_diff)
  have ue1: "2 ^ 53 * ?u = 2 powr (of_int ?e + 1)" by (simp add: ulp_def powr_diff powr_add)
  have "2 ^ 52 * ?u \<le> x" "x < 2 ^ 53 * ?u"
    using expo_bounds [OF x0] assms unfolding ue ue1 by simp_all
  then have r: "2 ^ 52 \<le> x / ?u" "x / ?u < 2 ^ 53"
    using u by (simp_all add: pos_le_divide_eq pos_divide_less_eq)
  have "(2::int) ^ 52 \<le> \<lfloor>x / ?u\<rfloor>" using r(1) by (simp add: le_floor_iff)
  moreover have "\<lfloor>x / ?u\<rfloor> < (2::int) ^ 53" using r(2) by (simp add: floor_less_iff)
  ultimately have n: "2 ^ 52 \<le> ?n" "?n \<le> 2 ^ 53" using roundEven_floor [of "x / ?u"] by linarith+
  have y: "f64 x = of_int ?n * ?u" using x0 by (simp add: f64_def)
  have nr: "(2::real) ^ 52 \<le> of_int ?n" using n(1) by (metis of_int_le_iff of_int_numeral of_int_power)
  show ?thesis
  proof (cases "?n = 2 ^ 53")
    case True
    then have y1: "f64 x = 2 powr (of_int ?e + 1)" using y ue1 by simp
    have "expo (f64 x) = ?e + 1"
      by (rule expo_unique) (simp_all add: y1)
    then have "ulp (f64 x) = 2 * ?u" by (simp add: ulp_def powr_diff powr_add)
    then have "f64 x / ulp (f64 x) = of_int (2 ^ 52)" using y True u by simp
    then show ?thesis by (rule f64_exact)
  next
    case False
    then have "?n < 2 ^ 53" using n(2) by simp
    then have "?n + 1 \<le> 2 ^ 53" by simp
    then have "real_of_int (?n + 1) \<le> real_of_int (2 ^ 53)" by (simp only: of_int_le_iff)
    then have nl: "of_int ?n < (2::real) ^ 53" by simp
    have a: "2 powr of_int ?e \<le> f64 x"
      unfolding y ue [symmetric] using nr u by (intro mult_right_mono) simp_all
    have b: "f64 x < 2 powr (of_int ?e + 1)"
      unfolding y ue1 [symmetric] using nl u by (intro mult_strict_right_mono) simp_all
    have pos: "0 < f64 x" using a powr_gt_zero [of 2 "of_int ?e"] by linarith
    have "expo (f64 x) = ?e" using a b pos by (intro expo_unique) simp_all
    then have "ulp (f64 x) = ?u" by (simp add: ulp_def)
    then have "f64 x / ulp (f64 x) = of_int ?n" using y u by simp
    then show ?thesis by (rule f64_exact)
  qed
qed

lemma log2_one_plus:
  assumes "0 \<le> t" "t \<le> 1"
  shows "t - t\<^sup>2 \<le> log 2 (1 + t)"
proof -
  have a: "t - t\<^sup>2 \<le> ln (1 + t)" by (rule ln_one_plus_pos_lower_bound [OF assms])
  have b: "0 \<le> ln (1 + t)" using assms by simp
  have l2: "0 < ln (2::real)" "ln (2::real) \<le> 1" using ln_2_less_1 by simp_all
  have "ln (1 + t) * ln 2 \<le> ln (1 + t) * 1" using b l2 by (intro mult_left_mono) simp_all
  then have "ln (1 + t) \<le> ln (1 + t) / ln 2" using l2 by (simp add: pos_le_divide_eq)
  then show ?thesis using a by (simp add: log_def)
qed

lemma log2_one_minus:
  assumes "0 \<le> t" "t < 1"
  shows "log 2 (1 - t) \<le> - t"
proof -
  have a: "ln (1 - t) \<le> - t" by (rule ln_one_minus_pos_upper_bound [OF assms])
  then have b: "ln (1 - t) \<le> 0" using assms by linarith
  have l2: "0 < ln (2::real)" "ln (2::real) \<le> 1" using ln_2_less_1 by simp_all
  have "(- ln (1 - t)) * ln 2 \<le> (- ln (1 - t)) * 1" using b l2 by (intro mult_left_mono) simp_all
  then have "ln (1 - t) \<le> ln (1 - t) * ln 2" by simp
  then have "ln (1 - t) / ln 2 \<le> ln (1 - t)" using l2 by (simp add: pos_divide_le_eq)
  then show ?thesis using a by (simp add: log_def)
qed

lemma index_exact:
  fixes L :: "real \<Rightarrow> real" and s m :: int
  assumes acc: "accurateLog2 L"
    and m: "0 < m" and lo: "m * 2 ^ k < s" and up: "s \<le> m * 2 ^ Suc k" and s: "s < 2 ^ 40"
  shows "\<lceil>L (f64 (f64 (of_int s) / f64 (of_int m)))\<rceil> = int (Suc k)"
proof -
  have H1: "\<And>j::nat. j \<le> 40 \<Longrightarrow> L (2 ^ j) = real j"
    using acc by (simp add: accurateLog2_def)
  have H3: "\<And>x. f64 x = x \<Longrightarrow> 1 \<le> x \<Longrightarrow> x \<le> 2 ^ 40 \<Longrightarrow>
               \<bar>L x - log 2 x\<bar> \<le> 1 / 2 ^ 44"
    using acc by (simp add: accurateLog2_def)
  let ?P = "(2::real) ^ k"
  define q where "q = real_of_int s / real_of_int m"
  have mr: "0 < real_of_int m" using m by simp
  have ms: "m \<le> s"
  proof -
    have "m * 1 \<le> m * 2 ^ k" using m by (intro mult_left_mono) simp_all
    then show ?thesis using lo by simp
  qed
  have fs: "f64 (of_int s) = of_int s" using m ms s by (intro f64_int) simp
  have fm: "f64 (of_int m) = of_int m" using m ms s by (intro f64_int) simp
  have arg: "f64 (of_int s) / f64 (of_int m) = q" by (simp add: fs fm q_def)
  have P1: "1 \<le> ?P" by simp
  have "1 * (2::int) ^ k \<le> m * 2 ^ k" using m by (intro mult_right_mono) simp_all
  then have "(2::int) ^ k < 2 ^ 40" using lo s by linarith
  then have k40: "k < 40" by (simp only: power_strict_increasing_iff one_less_numeral_iff semiring_norm)
  then have k41: "Suc k \<le> 40" by simp
  have P40: "(2::real) ^ Suc k \<le> 2 ^ 40" using k41 by (intro power_increasing) simp_all
  show ?thesis
  proof (cases "s = m * 2 ^ Suc k")
    case True
    then have "q = 2 ^ Suc k" using mr by (simp add: q_def)
    then show ?thesis unfolding arg by (simp only: f64_pow2 H1 [OF k41] ceiling_of_nat)
  next
    case False
    define x where "x = f64 q"
    have lo': "m * 2 ^ k + 1 \<le> s" using lo by simp
    have up': "s + 1 \<le> m * 2 ^ Suc k" using up False by simp
    have mP: "real_of_int m * ?P < 2 ^ 40"
    proof -
      have "m * 2 ^ k < 2 ^ 40" using lo s by simp
      then have "real_of_int (m * 2 ^ k) < real_of_int (2 ^ 40)" by (simp only: of_int_less_iff)
      then show ?thesis by simp
    qed
    have qpos: "0 < q" using m ms by (simp add: q_def)
    have xf: "f64 x = x" unfolding x_def by (rule f64_idem [OF qpos])
    have "\<bar>x - q\<bar> \<le> q / 2 ^ 53" using f64_err [of q] qpos by (simp add: x_def)
    then have err: "q - q / 2 ^ 53 \<le> x" "x \<le> q + q / 2 ^ 53"
      unfolding abs_le_iff by linarith+
    have qm: "q * (1 - 1 / 2 ^ 53) = q - q / 2 ^ 53" "q * (1 + 1 / 2 ^ 53) = q + q / 2 ^ 53"
      by (simp_all add: algebra_simps)
    have "real_of_int (m * 2 ^ k + 1) \<le> real_of_int s" using lo' by (simp only: of_int_le_iff)
    then have "real_of_int m * ?P + 1 \<le> real_of_int s" by simp
    then have "(real_of_int m * ?P + 1) / real_of_int m \<le> q"
      unfolding q_def using mr by (intro divide_right_mono) simp_all
    then have q1: "?P + 1 / real_of_int m \<le> q" using mr by (simp add: field_simps)
    have "?P / 2 ^ 40 \<le> 1 / real_of_int m" using mP mr by (simp add: field_simps)
    then have q2: "?P * (1 + 1 / 2 ^ 40) \<le> q" using q1 by (simp add: algebra_simps)
    have "?P * (1 + 1 / 2 ^ 41) \<le> ?P * ((1 + 1 / 2 ^ 40) * (1 - 1 / 2 ^ 53))"
      by (intro mult_left_mono) simp_all
    also have "\<dots> = ?P * (1 + 1 / 2 ^ 40) * (1 - 1 / 2 ^ 53)" by (simp only: mult.assoc)
    also have "\<dots> \<le> q * (1 - 1 / 2 ^ 53)"
      using q2 by (intro mult_right_mono) simp_all
    also have "\<dots> \<le> x" using err(1) unfolding qm .
    finally have xl: "?P * (1 + 1 / 2 ^ 41) \<le> x" .
    have x1: "1 \<le> x"
    proof -
      have "1 * 1 \<le> ?P * (1 + 1 / 2 ^ 41)" using P1 by (intro mult_mono) simp_all
      then show ?thesis using xl by simp
    qed
    have "log 2 (?P * (1 + 1 / 2 ^ 41)) \<le> log 2 x"
      using xl x1 by (subst log_le_cancel_iff) simp_all
    moreover have "log 2 (?P * (1 + 1 / 2 ^ 41)) = real k + log 2 (1 + 1 / 2 ^ 41)"
      by (subst log_mult) (simp_all add: log_nat_power)
    moreover have "1 / 2 ^ 41 - (1 / 2 ^ 41)\<^sup>2 \<le> log 2 (1 + 1 / 2 ^ 41)"
      by (rule log2_one_plus) simp_all
    ultimately have ll: "real k + (1 / 2 ^ 41 - (1 / 2 ^ 41)\<^sup>2) \<le> log 2 x" by linarith
    have "real_of_int (s + 1) \<le> real_of_int (m * 2 ^ Suc k)" using up' by (simp only: of_int_le_iff)
    then have "real_of_int s \<le> real_of_int m * (2 * ?P) - 1" by simp
    then have "q \<le> (real_of_int m * (2 * ?P) - 1) / real_of_int m"
      unfolding q_def using mr by (intro divide_right_mono) simp_all
    then have q3: "q \<le> 2 * ?P - 1 / real_of_int m" using mr by (simp add: field_simps)
    have "2 * ?P / 2 ^ 41 \<le> 1 / real_of_int m" using mP mr by (simp add: field_simps)
    then have q4: "q \<le> 2 * ?P * (1 - 1 / 2 ^ 41)" using q3 by (simp add: algebra_simps)
    have "x \<le> q * (1 + 1 / 2 ^ 53)" using err(2) unfolding qm .
    also have "\<dots> \<le> 2 * ?P * (1 - 1 / 2 ^ 41) * (1 + 1 / 2 ^ 53)"
      using q4 by (intro mult_right_mono) simp_all
    also have "\<dots> = 2 * ?P * ((1 - 1 / 2 ^ 41) * (1 + 1 / 2 ^ 53))" by (simp only: mult.assoc)
    also have "\<dots> \<le> 2 * ?P * (1 - 1 / 2 ^ 42)"
      by (intro mult_left_mono) simp_all
    finally have xu: "x \<le> 2 * ?P * (1 - 1 / 2 ^ 42)" .
    have x40: "x \<le> 2 ^ 40"
    proof -
      have "2 * ?P * (1 - 1 / 2 ^ 42) \<le> 2 * ?P * 1" by (intro mult_left_mono) simp_all
      then show ?thesis using xu P40 by simp
    qed
    have "log 2 x \<le> log 2 (2 * ?P * (1 - 1 / 2 ^ 42))"
      using xu x1 by (subst log_le_cancel_iff) simp_all
    moreover have "log 2 (2 ^ Suc k * (1 - 1 / 2 ^ 42)) = real (Suc k) + log 2 (1 - 1 / 2 ^ 42)"
      by (subst log_mult) (simp_all add: log_nat_power del: power_Suc)
    moreover have "log 2 (1 - 1 / 2 ^ 42) \<le> - (1 / 2 ^ 42)"
      by (rule log2_one_minus) simp_all
    ultimately have lu: "log 2 x \<le> real k + 1 - 1 / 2 ^ 42" by simp
    have ac: "log 2 x - 1 / 2 ^ 44 \<le> L x" "L x \<le> log 2 x + 1 / 2 ^ 44"
      using H3 [OF xf x1 x40] unfolding abs_le_iff by linarith+
    have n1: "(1 / 2 ^ 44 :: real) < 1 / 2 ^ 41 - (1 / 2 ^ 41)\<^sup>2"
      by (simp add: power2_eq_square)
    have n2: "(1 / 2 ^ 44 :: real) < 1 / 2 ^ 42" by simp
    have "real k < L x" using ac(1) ll n1 by linarith
    moreover have "L x < real k + 1" using ac(2) lu n2 by linarith
    ultimately have "\<lceil>L x\<rceil> = int (Suc k)" by (intro ceiling_unique) simp_all
    then show ?thesis unfolding arg x_def .
  qed
qed

lemma log2ceil_exact:
  assumes "accurateLog2 (Log2 rt)" "0 < m" "m < s" "s < 2 ^ 40"
  shows "log2ceil rt s m = ceilLog2 s m"
proof -
  let ?k = "nat (clog m s)"
  have k1: "1 \<le> clog m s" and lo: "m * 2 ^ (?k - 1) < s"
    using clog_lower [OF assms(2,3)] by auto
  have up: "s \<le> m * 2 ^ ?k" by (rule clog_upper [OF assms(2)])
  have sk: "Suc (?k - 1) = ?k" using k1 by simp
  have up': "s \<le> m * 2 ^ Suc (?k - 1)" unfolding sk by (rule up)
  have "\<lceil>Log2 rt (f64 (f64 (of_int s) / f64 (of_int m)))\<rceil> = int (Suc (?k - 1))"
    using assms(1,2) lo up' assms(4) by (rule index_exact)
  then show ?thesis using k1 sk by (simp add: log2ceil_def ceilLog2_def)
qed

lemma accurateLog2_exactLog2: "accurateLog2 exactLog2"
  by (simp add: accurateLog2_def exactLog2_def log_nat_power)

lemma accurateLog2_goRuntime: "accurateLog2 (Log2 goRuntime)"
  using accurateLog2_exactLog2 by (simp add: goRuntime_def)

text \<open>
  Above \<open>2 ^ 53\<close> the conversion to \<open>float64\<close> rounds, and the index is no longer that of
  the documented rule, even with a logarithm that is exact: \<open>2 ^ 53 + 1\<close> is converted to
  \<open>2 ^ 53\<close>, and for \<open>minSize = 2 ^ 52\<close> the index is 1 where the rule gives 2.
\<close>

lemma log2ceil_rounds:
  "log2ceil goRuntime (2 ^ 53 + 1) (2 ^ 52) = 1 \<and> ceilLog2 (2 ^ 53 + 1) (2 ^ 52) = 2"
proof -
  define x :: real where "x = 2 ^ 53 + 1"
  have x0: "x \<noteq> 0" by (simp add: x_def)
  have "expo x = int 53" by (rule expo_eq) (simp_all add: x_def)
  then have u: "ulp x = 2" by (simp add: ulp_def)
  have "x / 2 = 2 ^ 52 + 1 / 2" by (simp add: x_def)
  then have r: "roundEven (x / 2) = 2 ^ 52" by (simp add: roundEven_def Let_def)
  have a: "f64 x = 2 ^ 53" using x0 by (simp add: f64_def u r)
  have b: "f64 (2 ^ 52) = 2 ^ 52" by (rule f64_pow2)
  have c: "f64 (2 ^ 53 / 2 ^ 52) = 2 ^ 1" using f64_pow2 [of 1] by simp
  have "log2ceil goRuntime (2 ^ 53 + 1) (2 ^ 52) = \<lceil>exactLog2 (f64 (f64 x / f64 (2 ^ 52)))\<rceil>"
    by (simp add: log2ceil_def goRuntime_def x_def)
  also have "\<dots> = \<lceil>log 2 ((2::real) ^ 1)\<rceil>" by (simp only: a b c exactLog2_def)
  also have "\<dots> = 1" by simp
  finally have l: "log2ceil goRuntime (2 ^ 53 + 1) (2 ^ 52) = 1" .
  have "clog (2 ^ 52) (2 ^ 53 + 1) = int (Suc 1)" by (rule clog_unique) simp_all
  then show ?thesis using l by (simp add: ceilLog2_def)
qed

lemma sameClasses_refl: "sameClasses p p"
  by (simp add: sameClasses_def)

lemma sameClasses_trans: "sameClasses p q \<Longrightarrow> sameClasses q r \<Longrightarrow> sameClasses p r"
  by (simp add: sameClasses_def)

lemma sameClasses_update:
  "i < length (pools p) \<Longrightarrow> capacity bp = capacity (pools p ! i) \<Longrightarrow>
   sameClasses p (p\<lparr>pools := (pools p)[i := bp]\<rparr>)"
  by (simp add: sameClasses_def classCaps_def map_update list_update_same_conv)


lemma wfPools_same: "wfPools p \<Longrightarrow> sameClasses p q \<Longrightarrow> wfPools q"
  unfolding wfPools_def sameClasses_def classCaps_def
  by (metis length_map)

lemma wfPools_length:
  "wfPools p \<Longrightarrow> length (pools p) = Suc (length (doubling (minSize p) (maxSize p)))"
  unfolding wfPools_def classCaps_def specClasses_def
  by (metis length_map length_append_singleton)

lemma wfPools_capacity:
  assumes "wfPools p" "k < length (pools p)"
  shows "capacity (pools p ! k) =
           (if int k < maxIndex p then minSize p * 2 ^ k else maxSize p)"
proof -
  let ?d = "doubling (minSize p) (maxSize p)"
  have len: "length (pools p) = Suc (length ?d)" by (rule wfPools_length [OF assms(1)])
  have mi: "maxIndex p = int (length ?d)" using assms(1) len by (simp add: wfPools_def)
  have "capacity (pools p ! k) = classCaps p ! k"
    using assms(2) by (simp add: classCaps_def)
  also have "\<dots> = (?d @ [maxSize p]) ! k"
    using assms(1) by (simp add: wfPools_def specClasses_def)
  also have "\<dots> = (if int k < maxIndex p then minSize p * 2 ^ k else maxSize p)"
    using assms(2) len mi by (auto simp: nth_append doubling_nth)
  finally show ?thesis .
qed

lemma wfPools_shape: "wfPools p \<Longrightarrow> maxIndex p = int (length (pools p)) - 1 \<and> pools p \<noteq> []"
  using wfPools_length [of p] by (auto simp: wfPools_def)

lemma getPool_wf:
  assumes wf: "wfPools p" and le: "s \<le> maxSize p"
    and ex: "minSize p < s \<Longrightarrow> s < maxSize p \<Longrightarrow>
             log2ceil rt s (minSize p) = ceilLog2 s (minSize p)"
  shows "getPool rt p s = Inr (Some (nat (ruleIndex p s)))"
    and "nat (ruleIndex p s) < length (pools p)"
    and "s \<le> capacity (pools p ! nat (ruleIndex p s))"
proof -
  let ?d = "doubling (minSize p) (maxSize p)"
  have len: "length (pools p) = Suc (length ?d)" by (rule wfPools_length [OF wf])
  have mi: "maxIndex p = int (length ?d)" using wf len by (simp add: wfPools_def)
  have pos: "0 < minSize p" and mm: "minSize p \<le> maxSize p"
    using wf by (simp_all add: wfPools_def)
  have cap: "\<And>k. k < length (pools p) \<Longrightarrow>
      capacity (pools p ! k) = (if int k < maxIndex p then minSize p * 2 ^ k else maxSize p)"
    by (rule wfPools_capacity [OF wf])
  consider (small) "s \<le> minSize p" | (top) "minSize p < s" "s = maxSize p"
    | (mid) "minSize p < s" "s < maxSize p"
    using le by linarith
  then have "getPool rt p s = Inr (Some (nat (ruleIndex p s)))
      \<and> nat (ruleIndex p s) < length (pools p)
      \<and> s \<le> capacity (pools p ! nat (ruleIndex p s))"
  proof cases
    case small
    then show ?thesis using len mm cap [of 0]
      by (simp add: getPool_def ruleIndex_def poolAt_def)
  next
    case top
    then show ?thesis using len mi cap [of "length ?d"]
      by (simp add: getPool_def ruleIndex_def poolAt_def)
  next
    case mid
    let ?k = "clog (minSize p) s"
    have k1: "1 \<le> ?k" using clog_lower(1) [OF pos mid(1)] .
    have kle: "?k \<le> maxIndex p"
      using clog_mono [OF pos, of s "maxSize p"] mid(2) by (simp add: mi clog_length)
    have up: "s \<le> minSize p * 2 ^ nat ?k" by (rule clog_upper [OF pos])
    have ri: "ruleIndex p s = ?k"
      using mid k1 kle by (simp add: ruleIndex_def ceilLog2_def)
    have lt: "nat ?k < length (pools p)" using kle k1 len mi by simp
    have "s \<le> capacity (pools p ! nat ?k)"
      using cap [OF lt] up mid(2) by simp
    moreover have "getPool rt p s = Inr (Some (nat ?k))"
      using mid k1 kle lt ex by (simp add: getPool_def ceilLog2_def poolAt_def Let_def)
    ultimately show ?thesis using ri lt by simp
  qed
  then show "getPool rt p s = Inr (Some (nat (ruleIndex p s)))"
    and "nat (ruleIndex p s) < length (pools p)"
    and "s \<le> capacity (pools p ! nat (ruleIndex p s))" by simp_all
qed


lemma getPool_above:
  "minSize p \<le> maxSize p \<Longrightarrow> maxSize p < s \<Longrightarrow> getPool rt p s = Inr None"
  by (simp add: getPool_def)

lemma getPool_in_range:
  assumes "maxIndex p = int (length (pools p)) - 1" "pools p \<noteq> []"
  shows "getPool rt p n = Inr None \<or> (\<exists>i<length (pools p). getPool rt p n = Inr (Some i))"
proof -
  obtain x xs where "pools p = x # xs" using assms(2) by (cases "pools p") auto
  then show ?thesis
    using assms(1) by (auto simp: getPool_def poolAt_def Let_def)
qed

lemma New_class:
  assumes "getPool rt p s = Inr (Some i)" "i < length (pools p)"
    and "0 \<le> s" "s \<le> capacity (pools p ! i)"
  shows "\<exists>sl p' M'. New rt p M s = (Inr sl, p', M') \<and> Len sl = s
           \<and> Cap sl = capacity (pools p ! i) \<and> sameClasses p p'"
proof -
  let ?bp = "pools p ! i"
  have c0: "0 \<le> capacity ?bp" using assms(3,4) by simp
  obtain r bp' M1 where g: "poolGet (pick rt) ?bp M = (r, bp', M1)"
    by (cases "poolGet (pick rt) ?bp M")
  have r: "\<exists>ptr. r = Inr ptr" and b: "capacity bp' = capacity ?bp"
    using g c0 by (auto simp: poolGet_def makeslice_def Let_def split: if_splits)
  then obtain ptr where ptr: "r = Inr ptr" by blast
  have sc: "sameClasses p (p\<lparr>pools := (pools p)[i := bp']\<rparr>)"
    by (rule sameClasses_update [OF assms(2) b])
  show ?thesis
    using assms g ptr sc
    by (auto simp: New_def Let_def makeslice_def)
qed

lemma makeslice_frame:
  "makeslice M n k = (r, M') \<Longrightarrow> brk M \<le> brk M' \<and> (\<forall>a<brk M. cells M' a = cells M a)"
  by (auto simp: makeslice_def split: if_splits)

lemma poolGet_frame:
  "poolGet ch bp M = (r, bp', M') \<Longrightarrow> brk M \<le> brk M' \<and> (\<forall>a<brk M. cells M' a = cells M a)"
  by (auto simp: poolGet_def Let_def makeslice_def split: if_splits)

lemma poolInMemory_mono: "poolInMemory p M \<Longrightarrow> brk M \<le> brk M' \<Longrightarrow> poolInMemory p M'"
  by (fastforce simp: poolInMemory_def)

lemma poolInMemory_update:
  assumes "poolInMemory p M" "i < length (pools p)"
    and "\<forall>ptr \<in> set (pool bp). ptr + nat (capacity bp) \<le> brk M"
  shows "poolInMemory (p\<lparr>pools := (pools p)[i := bp]\<rparr>) M"
  using assms unfolding poolInMemory_def
  by (auto dest!: set_update_subset_insert [THEN subsetD])

lemma poolGet_inMemory:
  assumes "poolGet ch bp M = (Inr ptr, bp', M')"
    and "\<forall>x \<in> set (pool bp). x + nat (capacity bp) \<le> brk M"
  shows "capacity bp' = capacity bp"
    and "\<forall>x \<in> set (pool bp'). x + nat (capacity bp') \<le> brk M'"
    and "ptr \<noteq> 0 \<longrightarrow> ptr + nat (capacity bp) \<le> brk M'"
    and "brk M \<le> brk M'"
proof -
  show "capacity bp' = capacity bp"
    using assms(1) by (auto simp: poolGet_def Let_def makeslice_def split: if_splits)
  show "brk M \<le> brk M'"
    using assms(1) by (auto simp: poolGet_def Let_def makeslice_def split: if_splits)
  have sub: "set (pool bp') \<subseteq> set (pool bp)"
    using assms(1)
    by (auto simp: poolGet_def Let_def makeslice_def split: if_splits
        dest: in_set_takeD in_set_dropD)
  show "\<forall>x \<in> set (pool bp'). x + nat (capacity bp') \<le> brk M'"
    using sub assms(2) \<open>capacity bp' = capacity bp\<close> \<open>brk M \<le> brk M'\<close>
    by fastforce
  show "ptr \<noteq> 0 \<longrightarrow> ptr + nat (capacity bp) \<le> brk M'"
    using assms by (auto simp: poolGet_def Let_def makeslice_def split: if_splits)
qed

lemma makeslice_inMemory:
  "makeslice M n k = (Inr sl, M') \<Longrightarrow> Data sl + nat (Cap sl) \<le> brk M' \<and> brk M \<le> brk M'"
  by (auto simp: makeslice_def split: if_splits)

lemma New_inMemory:
  assumes nw: "New rt p M s = (Inr sl, p', M')" and inm: "poolInMemory p M"
  shows "Data sl + nat (Cap sl) \<le> brk M'" and "poolInMemory p' M'"
proof -
  have "Data sl + nat (Cap sl) \<le> brk M' \<and> poolInMemory p' M'"
  proof (cases "getPool rt p s")
    case (Inl e)
    then show ?thesis using nw by (simp add: New_def)
  next
    case (Inr opt)
    show ?thesis
    proof (cases opt)
      case None
      then have m: "makeslice M s s = (Inr sl, M')" and pp: "p' = p"
        using nw Inr by (auto simp: New_def split: prod.splits)
      show ?thesis
        using makeslice_inMemory [OF m] poolInMemory_mono [OF inm] pp by simp
    next
      case (Some i)
      have il: "i < length (pools p)"
        using Inr Some by (auto simp: getPool_def poolAt_def Let_def split: if_splits)
      let ?bp = "pools p ! i"
      have st: "\<forall>x \<in> set (pool ?bp). x + nat (capacity ?bp) \<le> brk M"
        using inm il by (auto simp: poolInMemory_def)
      obtain r1 bp1 M1 where g: "poolGet (pick rt) ?bp M = (r1, bp1, M1)"
        by (cases "poolGet (pick rt) ?bp M")
      obtain ptr where r1: "r1 = Inr ptr"
        using nw Inr Some g by (cases r1) (auto simp: New_def Let_def)
      note pg = poolGet_inMemory [OF g [unfolded r1] st]
      let ?p1 = "p\<lparr>pools := (pools p)[i := bp1]\<rparr>"
      have inm1: "poolInMemory ?p1 M1"
        using poolInMemory_update [OF poolInMemory_mono [OF inm pg(4)] il, of bp1] pg(1,2)
        by simp
      show ?thesis
      proof (cases "ptr = 0")
        case True
        then have m: "makeslice M1 s (capacity ?bp) = (Inr sl, M')" and pp: "p' = ?p1"
          using nw Inr Some g r1 by (auto simp: New_def Let_def split: prod.splits)
        show ?thesis
          using makeslice_inMemory [OF m] poolInMemory_mono [OF inm1] pp by simp
      next
        case False
        then have "sl = \<lparr>Data = ptr, Len = s, Cap = capacity ?bp\<rparr>" "p' = ?p1" "M' = M1"
          using nw Inr Some g r1 by (auto simp: New_def Let_def)
        then show ?thesis using pg(3) False inm1 by simp
      qed
    qed
  qed
  then show "Data sl + nat (Cap sl) \<le> brk M'" and "poolInMemory p' M'" by simp_all
qed

lemma Release_inMemory:
  assumes "Release rt p buf = (Inr ok, p')" "poolInMemory p M"
    and "Data buf + nat (Cap buf) \<le> brk M"
  shows "poolInMemory p' M"
proof (cases ok)
  case False
  then have "p' = p"
    using assms(1) by (auto simp: Release_def Let_def split: if_splits sum.splits option.splits)
  then show ?thesis using assms(2) by simp
next
  case True
  then obtain i where i: "getPool rt p (Cap buf) = Inr (Some i)"
    and c: "Cap buf = capacity (pools p ! i)"
    and p': "p' = p\<lparr>pools := (pools p)[i := (pools p ! i)\<lparr>pool := Data buf # pool (pools p ! i)\<rparr>]\<rparr>"
    using assms(1) by (auto simp: Release_def Let_def split: if_splits sum.splits option.splits)
  have il: "i < length (pools p)"
    using i by (auto simp: getPool_def poolAt_def Let_def split: if_splits)
  have "\<forall>x \<in> set (pool (pools p ! i)). x + nat (capacity (pools p ! i)) \<le> brk M"
    using assms(2) il by (auto simp: poolInMemory_def)
  then show ?thesis
    unfolding p' using assms(3) c by (intro poolInMemory_update [OF assms(2) il]) simp
qed

lemma New_origin:
  assumes nw: "New rt p M s = (Inr sl, p', M')"
  shows "brk M \<le> Data sl
      \<or> (\<exists>bp \<in> set (pools p). Data sl \<in> set (pool bp) \<and> Cap sl = capacity bp)"
proof (cases "getPool rt p s")
  case (Inl e)
  then show ?thesis using nw by (simp add: New_def)
next
  case (Inr opt)
  show ?thesis
  proof (cases opt)
    case None
    then have "makeslice M s s = (Inr sl, M')"
      using nw Inr by (auto simp: New_def split: prod.splits)
    then show ?thesis by (auto simp: makeslice_def split: if_splits)
  next
    case (Some i)
    have il: "i < length (pools p)"
      using Inr Some by (auto simp: getPool_def poolAt_def Let_def split: if_splits)
    let ?bp = "pools p ! i"
    obtain r1 bp1 M1 where g: "poolGet (pick rt) ?bp M = (r1, bp1, M1)"
      by (cases "poolGet (pick rt) ?bp M")
    obtain ptr where r1: "r1 = Inr ptr"
      using nw Inr Some g by (cases r1) (auto simp: New_def Let_def)
    have b1: "brk M \<le> brk M1" using poolGet_frame [OF g] by simp
    show ?thesis
    proof (cases "ptr = 0")
      case True
      then have "makeslice M1 s (capacity ?bp) = (Inr sl, M')"
        using nw Inr Some g r1 by (auto simp: New_def Let_def split: prod.splits)
      then have "Data sl = brk M1" by (auto simp: makeslice_def split: if_splits)
      then show ?thesis using b1 by simp
    next
      case False
      then have sl: "sl = \<lparr>Data = ptr, Len = s, Cap = capacity ?bp\<rparr>"
        using nw Inr Some g r1 by (auto simp: New_def Let_def)
      have "ptr \<in> set (pool ?bp)"
        using g r1 False by (auto simp: poolGet_def Let_def makeslice_def split: if_splits)
      moreover have "?bp \<in> set (pools p)" using il by simp
      ultimately show ?thesis using sl by auto
    qed
  qed
qed

lemma NewCapacityPools_wf:
  assumes "clampMax a b \<le> 2 ^ 62" "NewCapacityPools a b = Some p"
  shows "wfPools p"
proof -
  have "0 < clampMin a" "clampMin a \<le> clampMax a b"
    by (simp_all add: clampMin_def clampMax_def)
  then show ?thesis
    using assms(2) capacity_newBytesPool [of "specClasses (clampMin a) (clampMax a b)"]
    unfolding NewCapacityPools_Some [OF assms(1)]
    by (auto simp: wfPools_def classCaps_def specClasses_def)
qed

lemma NewCapacityPools_shape:
  assumes "NewCapacityPools a b = Some p"
  shows "minSize p = clampMin a" "maxSize p = clampMax a b"
    "maxIndex p = int (length (pools p)) - 1" "pools p \<noteq> []"
proof -
  have mn: "(if a < minCapacity then minCapacity else a) = clampMin a"
    by (simp add: minCapacity_def clampMin_def max_def)
  have mx: "(if b < clampMin a then clampMin a else b) = clampMax a b"
    by (simp add: clampMax_def max_def)
  obtain ps where "classLoop (clampMin a) (clampMax a b) [] = Some ps"
    and p: "p = \<lparr>minSize = clampMin a, maxSize = clampMax a b,
                  maxIndex = int (length (ps @ [newBytesPool (clampMax a b)])) - 1,
                  pools = ps @ [newBytesPool (clampMax a b)]\<rparr>"
    using assms unfolding NewCapacityPools_def mn mx Let_def
    by (auto split: option.splits)
  show "minSize p = clampMin a" "maxSize p = clampMax a b"
    "maxIndex p = int (length (pools p)) - 1" "pools p \<noteq> []"
    by (simp_all add: p)
qed

lemma NewCapacityPools_2_8: "NewCapacityPools 2 8 = Some pool28"
  by (simp add: NewCapacityPools_def minCapacity_def classLoop.simps wrap64_def pool28_def)

lemma wfPools_pool28: "wfPools pool28"
proof -
  have "clampMax 2 8 \<le> 2 ^ 62" by (simp add: clampMax_def clampMin_def)
  then show ?thesis using NewCapacityPools_2_8 by (rule NewCapacityPools_wf)
qed

lemma log2ceil_wf:
  assumes "accurateLog2 (Log2 rt)" "wfPools p" "minSize p < s" "s < 2 ^ 40"
  shows "log2ceil rt s (minSize p) = ceilLog2 s (minSize p)"
proof -
  have "0 < minSize p" using assms(2) by (simp add: wfPools_def)
  then show ?thesis using assms(1,3,4) by (intro log2ceil_exact)
qed

text \<open>
  Claim C1, amended. For every pool configured by \<open>NewCapacityPools\<close> with a clamped
  maximum of at most \<open>2 ^ 62\<close>, in any later state of its stores, and every size \<open>s\<close>
  with \<open>0 \<le> s \<le> maxSize\<close> that is at most \<open>minSize\<close>, equal to \<open>maxSize\<close> or below
  \<open>2 ^ 40\<close>, \<open>New\<close> returns a block of length \<open>s\<close> whose capacity is that of the class
  the documented rule selects (\<open>ruleIndex\<close>: the smallest class for \<open>s \<le> minSize\<close>, the
  terminal class for \<open>s = maxSize\<close>, else the class at index \<open>ceil(log2(s / minSize))\<close>
  clamped into \<open>[0, maxIndex]\<close>); the capacity is at least \<open>s\<close>; and when the stored blocks
  of the pool lie in allocated memory, so do the array of the block returned and the
  blocks still stored. The index is the one the \<open>float64\<close> expression of \<open>getPool\<close>
  computes, with a \<open>math.Log2\<close> that is exact at the powers of two and within \<open>2 ^ -44\<close>
  of the logarithm on the \<open>float64\<close> values up to \<open>2 ^ 40\<close>.
\<close>

theorem New_length_capacity:
  assumes "clampMax a b \<le> 2 ^ 62" "NewCapacityPools a b = Some p0" "sameClasses p0 p"
    and "0 \<le> s" "s \<le> maxSize p"
    and "s \<le> minSize p \<or> s = maxSize p \<or> s < 2 ^ 40"
    and "accurateLog2 (Log2 rt)"
  shows "\<exists>sl p' M'. New rt p M s = (Inr sl, p', M') \<and> Len sl = s
           \<and> Cap sl = classCaps p ! nat (ruleIndex p s) \<and> s \<le> Cap sl
           \<and> sameClasses p0 p'
           \<and> (poolInMemory p M \<longrightarrow>
                 Data sl + nat (Cap sl) \<le> brk M' \<and> poolInMemory p' M')"
proof -
  have wf: "wfPools p"
    using NewCapacityPools_wf [OF assms(1,2)] assms(3) by (rule wfPools_same)
  have ex: "log2ceil rt s (minSize p) = ceilLog2 s (minSize p)"
    if "minSize p < s" "s < maxSize p"
    using that assms(6) by (intro log2ceil_wf [OF assms(7) wf]) simp_all
  note g = getPool_wf [OF wf assms(5) ex]
  obtain sl p' M' where n: "New rt p M s = (Inr sl, p', M')" "Len sl = s"
      "Cap sl = capacity (pools p ! nat (ruleIndex p s))" "sameClasses p p'"
    using New_class [OF g(1) g(2) assms(4) g(3), of M] by blast
  have "Cap sl = classCaps p ! nat (ruleIndex p s)"
    using n(3) g(2) by (simp add: classCaps_def)
  moreover have "s \<le> Cap sl" using n(3) g(3) by simp
  moreover have "sameClasses p0 p'" using assms(3) n(4) by (rule sameClasses_trans)
  moreover have "poolInMemory p M \<longrightarrow>
      Data sl + nat (Cap sl) \<le> brk M' \<and> poolInMemory p' M'"
    using New_inMemory [OF n(1)] by blast
  ultimately show ?thesis using n(1,2) by blast
qed

theorem New_length_capacity_witness:
  "clampMax 2 8 \<le> 2 ^ 62 \<and> NewCapacityPools 2 8 = Some pool28 \<and> sameClasses pool28 pool28
   \<and> (0::int) \<le> 5 \<and> 5 \<le> maxSize pool28 \<and> (5::int) < 2 ^ 40
   \<and> accurateLog2 (Log2 goRuntime) \<and> poolInMemory pool28 emptyMemory
   \<and> (\<exists>sl p' M'. New goRuntime pool28 emptyMemory 5 = (Inr sl, p', M')
          \<and> Len sl = 5 \<and> Cap sl = 8 \<and> Data sl + 8 \<le> brk M' \<and> poolInMemory p' M')"
proof -
  have h1: "clampMax 2 8 \<le> 2 ^ 62" by (simp add: clampMax_def clampMin_def)
  have h3: "sameClasses pool28 pool28" by (rule sameClasses_refl)
  have h4: "(0::int) \<le> 5" by simp
  have h5: "5 \<le> maxSize pool28" by (simp add: pool28_def)
  have h6: "5 \<le> minSize pool28 \<or> 5 = maxSize pool28 \<or> (5::int) < 2 ^ 40" by simp
  have h8: "poolInMemory pool28 emptyMemory"
    by (simp add: poolInMemory_def pool28_def newBytesPool_def)
  have idx: "classCaps pool28 ! nat (ruleIndex pool28 5) = 8"
    by (simp add: ruleIndex_def ceilLog2_def clog.simps pool28_def classCaps_def
        newBytesPool_def)
  show ?thesis
    using New_length_capacity [OF h1 NewCapacityPools_2_8 h3 h4 h5 h6 accurateLog2_goRuntime,
        of emptyMemory]
      h1 NewCapacityPools_2_8 h3 h5 h8 accurateLog2_goRuntime idx
    by auto
qed

lemma log2ceil_wrapped: "log2ceil goRuntime 6500000000000000000 6341068275337658368 = 1"
proof -
  define q :: real where "q = 6500000000000000000 / 6341068275337658368"
  have fs: "f64 6500000000000000000 = 6500000000000000000"
    by (rule f64_scaled [where k = 62 and n = 6347656250000000]) simp_all
  have fm: "f64 6341068275337658368 = 6341068275337658368"
    by (rule f64_scaled [where k = 62 and n = 6192449487634432]) simp_all
  have qb: "101 / 100 \<le> q" "q \<le> 11 / 10" by (simp_all add: q_def)
  have "\<bar>f64 q - q\<bar> \<le> \<bar>q\<bar> / 2 ^ 53" by (rule f64_err)
  then have "q - q / 2 ^ 53 \<le> f64 q" "f64 q \<le> q + q / 2 ^ 53"
    using qb unfolding abs_le_iff by simp_all
  moreover have "q / 2 ^ 53 \<le> 1 / 1000" using qb by simp
  ultimately have x: "1 < f64 q" "f64 q < 2" using qb by linarith+
  have "log 2 1 < log 2 (f64 q)" using x by (subst log_less_cancel_iff) simp_all
  then have l0: "0 < log 2 (f64 q)" by simp
  have "log 2 (f64 q) < log 2 2" using x by (subst log_less_cancel_iff) simp_all
  then have l1: "log 2 (f64 q) < 1" by simp
  have "\<lceil>log 2 (f64 q)\<rceil> = 1" using l0 l1 by (intro ceiling_unique) simp_all
  moreover have "log2ceil goRuntime 6500000000000000000 6341068275337658368
      = \<lceil>exactLog2 (f64 (f64 6500000000000000000 / f64 6341068275337658368))\<rceil>"
    by (simp add: log2ceil_def goRuntime_def)
  ultimately show ?thesis by (simp only: fs fm exactLog2_def q_def)
qed

text \<open>
  Claim C1 as stated fails for a pool whose construction wrapped: with
  \<open>minSize = 11 * 2 ^ 59\<close> and \<open>maxSize = 3 * 2 ^ 61\<close> the class at index 1 has a negative
  capacity, and \<open>New\<close> of \<open>65 * 10 ^ 17\<close>, a size between the two, selects that class and
  panics in the \<open>make\<close> of its pool. It also fails where the conversion to \<open>float64\<close>
  rounds: in the pool of \<open>minSize = 2 ^ 52\<close> and \<open>maxSize = 2 ^ 54\<close>, whose classes are
  \<open>2 ^ 52\<close>, \<open>2 ^ 53\<close> and \<open>2 ^ 54\<close>, \<open>getPool\<close> selects for the size \<open>2 ^ 53 + 1\<close> the
  class at index 1, of capacity \<open>2 ^ 53\<close>, below the size, where the documented rule selects
  the class at index 2.
\<close>

theorem New_class_counterexample:
  "NewCapacityPools 6341068275337658368 6917529027641081856 = Some wrappedPool
   \<and> fst (New goRuntime wrappedPool emptyMemory 6500000000000000000) = Inl MakesliceLen
   \<and> NewCapacityPools 4503599627370496 18014398509481984 = Some roundedPool
   \<and> getPool goRuntime roundedPool 9007199254740993 = Inr (Some 1)
   \<and> classCaps roundedPool ! 1 = 9007199254740992
   \<and> ruleIndex roundedPool 9007199254740993 = 2"
proof -
  have g: "getPool goRuntime wrappedPool 6500000000000000000 = Inr (Some 1)"
    using log2ceil_wrapped by (simp add: getPool_def wrappedPool_def poolAt_def Let_def)
  have a: "fst (New goRuntime wrappedPool emptyMemory 6500000000000000000) = Inl MakesliceLen"
    unfolding New_def g
    by (simp add: wrappedPool_def goRuntime_def poolGet_def firstItem_def makeslice_def
        newBytesPool_def)
  have b: "NewCapacityPools 6341068275337658368 6917529027641081856 = Some wrappedPool"
    by (simp add: NewCapacityPools_def minCapacity_def classLoop.simps wrap64_def
        wrappedPool_def newBytesPool_def)
  have c: "NewCapacityPools 4503599627370496 18014398509481984 = Some roundedPool"
    by (simp add: NewCapacityPools_def minCapacity_def classLoop.simps wrap64_def
        roundedPool_def newBytesPool_def)
  have d: "getPool goRuntime roundedPool 9007199254740993 = Inr (Some 1)"
    using log2ceil_rounds by (simp add: getPool_def roundedPool_def poolAt_def Let_def)
  have e: "classCaps roundedPool ! 1 = 9007199254740992"
    by (simp add: classCaps_def roundedPool_def newBytesPool_def)
  have f: "ruleIndex roundedPool 9007199254740993 = 2"
    using log2ceil_rounds by (simp add: ruleIndex_def roundedPool_def)
  show ?thesis using a b c d e f by simp
qed

section \<open>Release\<close>

lemma Release_cases:
  assumes "maxIndex p = int (length (pools p)) - 1" "pools p \<noteq> []" "0 \<le> Cap buf"
  shows "\<exists>ok p'. Release rt p buf = (Inr ok, p')
     \<and> (ok \<longleftrightarrow> Cap buf \<noteq> 0 \<and> Cap buf \<le> maxSize p
            \<and> (\<exists>i. getPool rt p (Cap buf) = Inr (Some i) \<and> Cap buf = capacity (pools p ! i)))
     \<and> (ok \<longrightarrow> (\<exists>i. getPool rt p (Cap buf) = Inr (Some i)
            \<and> p' = p\<lparr>pools := (pools p)[i := (pools p ! i)\<lparr>pool := Data buf # pool (pools p ! i)\<rparr>]\<rparr>))
     \<and> (\<not> ok \<longrightarrow> p' = p)
     \<and> sameClasses p p'"
proof -
  consider (none) "getPool rt p (Cap buf) = Inr None"
    | (some) i where "i < length (pools p)" "getPool rt p (Cap buf) = Inr (Some i)"
    using getPool_in_range [OF assms(1,2), of rt "Cap buf"] by blast
  then show ?thesis
  proof cases
    case none
    then show ?thesis by (auto simp: Release_def Let_def sameClasses_refl)
  next
    case some
    have "sameClasses p
        (p\<lparr>pools := (pools p)[i := (pools p ! i)\<lparr>pool := Data buf # pool (pools p ! i)\<rparr>]\<rparr>)"
      by (rule sameClasses_update [OF some(1)]) simp
    then show ?thesis
      using some assms(3) by (auto simp: Release_def Let_def sameClasses_refl)
  qed
qed




section \<open>Sizes above the maximum\<close>

text \<open>
  Claim C6. For every size above \<open>maxSize\<close>, \<open>New\<close> selects no class, leaves the pool
  as it is and returns a freshly allocated block (at the first free address, zeroed, the
  memory below untouched) with length and capacity equal to the size; \<open>Release\<close> of that
  block, at any length, returns false and leaves the pool unchanged.
\<close>

theorem New_oversize:
  assumes "NewCapacityPools a b = Some p0" "sameClasses p0 p" "maxSize p < s"
  shows "getPool rt p s = Inr None
     \<and> New rt p M s = (Inr \<lparr>Data = brk M, Len = s, Cap = s\<rparr>, p, snd (makeslice M s s))
     \<and> brk (snd (makeslice M s s)) = brk M + nat s
     \<and> (\<forall>a. a < brk M \<longrightarrow> cells (snd (makeslice M s s)) a = cells M a)
     \<and> (\<forall>a. brk M \<le> a \<and> a < brk M + nat s \<longrightarrow> cells (snd (makeslice M s s)) a = 0)
     \<and> (\<forall>k. Release rt p \<lparr>Data = brk M, Len = k, Cap = s\<rparr> = (Inr False, p))"
proof -
  note sh = NewCapacityPools_shape [OF assms(1)]
  have mm: "minSize p \<le> maxSize p"
    using sh(1,2) assms(2) by (simp add: sameClasses_def clampMax_def)
  have pos: "0 < s" using sh(2) assms(2,3) by (simp add: sameClasses_def clampMax_def clampMin_def)
  have g: "getPool rt p s = Inr None" by (rule getPool_above [OF mm assms(3)])
  have "New rt p M s = (Inr \<lparr>Data = brk M, Len = s, Cap = s\<rparr>, p, snd (makeslice M s s))"
    using pos by (simp add: New_def g makeslice_def)
  moreover have "\<forall>k. Release rt p \<lparr>Data = brk M, Len = k, Cap = s\<rparr> = (Inr False, p)"
    using assms(3) by (simp add: Release_def)
  ultimately show ?thesis using g pos by (simp add: makeslice_def)
qed

theorem New_oversize_witness:
  "NewCapacityPools 2 8 = Some pool28 \<and> sameClasses pool28 pool28 \<and> maxSize pool28 < 9
   \<and> New goRuntime pool28 emptyMemory 9
        = (Inr \<lparr>Data = 1, Len = 9, Cap = 9\<rparr>, pool28, snd (makeslice emptyMemory 9 9))
   \<and> Release goRuntime pool28 \<lparr>Data = 1, Len = 9, Cap = 9\<rparr> = (Inr False, pool28)"
proof -
  have h2: "sameClasses pool28 pool28" by (rule sameClasses_refl)
  have h3: "maxSize pool28 < 9" by (simp add: pool28_def)
  show ?thesis
    using New_oversize [OF NewCapacityPools_2_8 h2 h3, of goRuntime emptyMemory]
      NewCapacityPools_2_8 h2 h3
    by (simp add: emptyMemory_def)
qed

section \<open>The reference count\<close>

lemma sint_add_wrap64: "sint (x + y :: 64 word) = wrap64 (sint x + sint y)"
  by (simp add: sint_word_ariths wrap64_def signed_take_bit_eq_take_bit_shift take_bit_eq_mod)

text \<open>
  Claim C9. \<open>RefInc\<close> followed by \<open>RefDec\<close> restores the buffer, so the count is again
  what it was; on a buffer whose count is 0 the count is 0 afterwards. \<open>RefAdd\<close> changes
  the count by exactly \<open>delta\<close>, and \<open>RefSwapDec\<close> returns the old count and leaves the
  count decremented by exactly 1. The arithmetic is that of \<open>int64\<close>: read as integers,
  the sum and the difference wrap at the ends of the range.
\<close>

theorem Ref_compose:
  "RefDec (RefInc bb) = bb
   \<and> RefValue (RefDec (RefInc (RefReset bb))) = 0
   \<and> RefValue (RefAdd bb delta) = RefValue bb + delta
   \<and> sint (RefValue (RefAdd bb delta)) = wrap64 (sint (RefValue bb) + sint delta)
   \<and> RefSwapDec bb = Some (RefValue bb, bb\<lparr>c := RefValue bb - 1\<rparr>)
   \<and> sint (RefValue bb - 1) = wrap64 (sint (RefValue bb) - 1)"
proof -
  have 1: "RefDec (RefInc bb) = bb"
    by (simp add: RefDec_def RefInc_def RefAdd_def AddInt64_def)
  have 2: "RefValue (RefDec (RefInc (RefReset bb))) = 0"
    by (simp add: RefDec_def RefInc_def RefAdd_def AddInt64_def RefReset_def StoreInt64_def
        RefValue_def LoadInt64_def)
  have 3: "RefValue (RefAdd bb delta) = RefValue bb + delta"
    by (simp add: RefAdd_def AddInt64_def RefValue_def LoadInt64_def)
  have 4: "sint (RefValue (RefAdd bb delta)) = wrap64 (sint (RefValue bb) + sint delta)"
    unfolding 3 by (rule sint_add_wrap64)
  have 5: "RefSwapDec bb = Some (RefValue bb, bb\<lparr>c := RefValue bb - 1\<rparr>)"
    by (subst RefSwapDec.simps)
      (simp add: LoadInt64_def CompareAndSwapInt64_def RefValue_def Let_def)
  have "sint (RefValue bb + (- 1)) = wrap64 (sint (RefValue bb) + sint (- 1 :: 64 word))"
    by (rule sint_add_wrap64)
  then have 6: "sint (RefValue bb - 1) = wrap64 (sint (RefValue bb) - 1)" by simp
  show ?thesis using 1 2 3 4 5 6 by blast
qed

section \<open>Guarantee, Grow and Truncate\<close>

text \<open>
  Claim C10. When the capacity minus the length is already at least \<open>n \<ge> 0\<close>,
  \<open>Guarantee\<close> returns without a panic and leaves the pool, the memory and the buffer
  exactly as they were, also when the length plus \<open>n\<close> is above \<open>2 ^ 31 - 1\<close> (the
  witness is such a call).
\<close>

theorem Guarantee_noop:
  assumes "0 \<le> n" "0 \<le> bbLen bb" "bbCap bb < 2 ^ 63" "n \<le> bbCap bb - bbLen bb"
  shows "Guarantee rt w bb n = (Inr (), w, bb)"
proof -
  have "int64 (bbLen bb + n)" using assms by (simp add: int64_def)
  then have "wrap64 (bbLen bb + n) = bbLen bb + n" by (rule wrap64_id)
  then show ?thesis using assms by (simp add: Guarantee_def Let_def)
qed

theorem Guarantee_noop_witness:
  "(0::int) \<le> 2147483648 \<and> 0 \<le> bbLen wideBuffer \<and> bbCap wideBuffer < 2 ^ 63
   \<and> 2147483648 \<le> bbCap wideBuffer - bbLen wideBuffer
   \<and> MaxInt32 < bbLen wideBuffer + 2147483648
   \<and> Guarantee goRuntime idleWorld wideBuffer 2147483648 = (Inr (), idleWorld, wideBuffer)"
proof -
  have h1: "(0::int) \<le> 2147483648" by simp
  have h2: "0 \<le> bbLen wideBuffer" by (simp add: bbLen_def wideBuffer_def)
  have h3: "bbCap wideBuffer < 2 ^ 63" by (simp add: bbCap_def wideBuffer_def)
  have h4: "2147483648 \<le> bbCap wideBuffer - bbLen wideBuffer"
    by (simp add: bbCap_def bbLen_def wideBuffer_def)
  have h5: "MaxInt32 < bbLen wideBuffer + 2147483648"
    by (simp add: MaxInt32_def bbLen_def wideBuffer_def)
  show ?thesis using Guarantee_noop [OF h1 h2 h3 h4] h2 h3 h4 h5 by simp
qed

text \<open>
  Claim C5, amended. \<open>Grow\<close> and \<open>Guarantee\<close> with \<open>n < 0\<close> panic with \<open>ErrGrow\<close>.
  \<open>Truncate\<close> panics with \<open>ErrTruncation\<close> if and only if \<open>n < 0\<close> or \<open>n\<close> is above the
  length, and sets the length to \<open>n\<close> otherwise. \<open>Guarantee\<close> panics with \<open>ErrTooLarge\<close>
  when the length plus \<open>n\<close> is above \<open>2 ^ 31 - 1\<close> and above the capacity (and within the
  64-bit range). Every one of these panics leaves the pool, the memory and the buffer as
  they were.
\<close>

theorem fatal_class:
  "(n < 0 \<longrightarrow> Guarantee rt w bb n = (Inl ErrGrow, w, bb)
              \<and> Grow rt w bb n = (Inl ErrGrow, w, bb))
   \<and> (0 \<le> bbLen bb \<and> bbLen bb \<le> bbCap bb \<longrightarrow>
        Truncate bb n =
          (if n < 0 \<or> n > bbLen bb then (Inl ErrTruncation, bb)
           else (Inr (), bb\<lparr>B := (B bb)\<lparr>Len := n\<rparr>\<rparr>)))
   \<and> (0 \<le> n \<and> bbLen bb + n < 2 ^ 63 \<and> MaxInt32 < bbLen bb + n \<and> bbCap bb < bbLen bb + n \<longrightarrow>
        Guarantee rt w bb n = (Inl ErrTooLarge, w, bb))"
proof (intro conjI impI)
  assume "n < 0"
  then show "Guarantee rt w bb n = (Inl ErrGrow, w, bb)" by (simp add: Guarantee_def)
  then show "Grow rt w bb n = (Inl ErrGrow, w, bb)" by (simp add: Grow_def)
next
  assume "0 \<le> bbLen bb \<and> bbLen bb \<le> bbCap bb"
  then show "Truncate bb n =
          (if n < 0 \<or> n > bbLen bb then (Inl ErrTruncation, bb)
           else (Inr (), bb\<lparr>B := (B bb)\<lparr>Len := n\<rparr>\<rparr>))"
    by (simp add: Truncate_def sliceTo_def bbLen_def bbCap_def)
next
  assume a: "0 \<le> n \<and> bbLen bb + n < 2 ^ 63 \<and> MaxInt32 < bbLen bb + n \<and> bbCap bb < bbLen bb + n"
  then have "int64 (bbLen bb + n)" by (simp add: int64_def MaxInt32_def)
  then have "wrap64 (bbLen bb + n) = bbLen bb + n" by (rule wrap64_id)
  then show "Guarantee rt w bb n = (Inl ErrTooLarge, w, bb)"
    using a by (simp add: Guarantee_def Let_def)
qed

theorem fatal_class_witness:
  "Guarantee goRuntime idleWorld smallBuffer (- 1) = (Inl ErrGrow, idleWorld, smallBuffer)
   \<and> Grow goRuntime idleWorld smallBuffer (- 1) = (Inl ErrGrow, idleWorld, smallBuffer)
   \<and> Truncate smallBuffer (- 1) = (Inl ErrTruncation, smallBuffer)
   \<and> Truncate smallBuffer 4 = (Inl ErrTruncation, smallBuffer)
   \<and> Truncate smallBuffer 2 = (Inr (), smallBuffer\<lparr>B := (B smallBuffer)\<lparr>Len := 2\<rparr>\<rparr>)
   \<and> Guarantee goRuntime idleWorld smallBuffer 2147483645
        = (Inl ErrTooLarge, idleWorld, smallBuffer)"
proof -
  have l: "bbLen smallBuffer = 3" "bbCap smallBuffer = 4"
    by (simp_all add: bbLen_def bbCap_def smallBuffer_def)
  show ?thesis
    using fatal_class [of "- 1" goRuntime idleWorld smallBuffer]
      fatal_class [of 4 goRuntime idleWorld smallBuffer]
      fatal_class [of 2 goRuntime idleWorld smallBuffer]
      fatal_class [of 2147483645 goRuntime idleWorld smallBuffer]
    by (simp add: l MaxInt32_def)
qed

text \<open>
  Claim C5 as stated fails where the capacity already suffices: on a buffer of length 0
  and capacity \<open>2 ^ 31\<close>, \<open>Guarantee(2 ^ 31)\<close> returns normally although the length plus
  \<open>n\<close> is above \<open>2 ^ 31 - 1\<close>.
\<close>

theorem Guarantee_roomy_counterexample:
  "MaxInt32 < bbLen wideBuffer + 2147483648
   \<and> Guarantee goRuntime idleWorld wideBuffer 2147483648 = (Inr (), idleWorld, wideBuffer)"
  by (simp add: MaxInt32_def bbLen_def bbCap_def wideBuffer_def Guarantee_def wrap64_def)

lemma bytesAt_memmove: "bytesAt (memmove M d s n) d n = bytesAt M s n"
proof -
  have "map (cells (memmove M d s n)) [d ..< d + n] = map (\<lambda>a. cells M (s + (a - d))) [d ..< d + n]"
    by (rule map_cong) (simp_all add: memmove_def)
  also have "\<dots> = map (cells M) (map (\<lambda>a. s + (a - d)) [d ..< d + n])" by simp
  also have "map (\<lambda>a. s + (a - d)) [d ..< d + n] = [s ..< s + n]"
    by (rule nth_equalityI) simp_all
  finally show ?thesis by (simp add: bytesAt_def)
qed

lemma bytesAt_cong:
  "(\<And>a. x \<le> a \<Longrightarrow> a < x + n \<Longrightarrow> cells M' a = cells M a) \<Longrightarrow> bytesAt M' x n = bytesAt M x n"
  by (simp add: bytesAt_def)

lemma bytesAt_take: "k \<le> n \<Longrightarrow> take k (bytesAt M x n) = bytesAt M x k"
  by (simp add: bytesAt_def take_map)

lemma upt_3: "[Suc 0 ..< 4] = [1, 2, 3]" "[10 ..< 12] = [10, 11]" "[Suc 0 ..< 3] = [1, 2]"
  by (simp_all add: upt_rec)

lemma New_frame:
  assumes "New rt p M s = (r, p', M')"
  shows "brk M \<le> brk M' \<and> (\<forall>a<brk M. cells M' a = cells M a)"
proof (cases "getPool rt p s")
  case (Inl e)
  then show ?thesis using assms by (simp add: New_def)
next
  case (Inr opt)
  show ?thesis
  proof (cases opt)
    case None
    then show ?thesis
      using assms Inr makeslice_frame [of M s s]
      by (cases "makeslice M s s") (simp add: New_def)
  next
    case (Some i)
    obtain r1 bp1 M1 where g: "poolGet (pick rt) (pools p ! i) M = (r1, bp1, M1)"
      by (cases "poolGet (pick rt) (pools p ! i) M")
    note f1 = poolGet_frame [OF g]
    show ?thesis
    proof (cases r1)
      case (Inl e)
      then show ?thesis using assms Inr Some g f1 by (simp add: New_def Let_def)
    next
      case (Inr ptr)
      show ?thesis
      proof (cases "ptr = 0")
        case True
        obtain r2 M2 where m: "makeslice M1 s (capacity (pools p ! i)) = (r2, M2)"
          by (cases "makeslice M1 s (capacity (pools p ! i))")
        note f2 = makeslice_frame [OF m]
        have "M' = M2"
          using assms \<open>getPool rt p s = Inr opt\<close> Some g Inr True m by (simp add: New_def Let_def)
        then show ?thesis using f1 f2 by auto
      next
        case False
        then have "M' = M1"
          using assms \<open>getPool rt p s = Inr opt\<close> Some g Inr by (simp add: New_def Let_def)
        then show ?thesis using f1 by simp
      qed
    qed
  qed
qed

lemma New_wf:
  assumes wf: "wfPools p" and s: "0 \<le> s"
    and ex: "minSize p < s \<Longrightarrow> s < maxSize p \<Longrightarrow>
             log2ceil rt s (minSize p) = ceilLog2 s (minSize p)"
  shows "\<exists>sl p' M'. New rt p M s = (Inr sl, p', M') \<and> Len sl = s \<and> s \<le> Cap sl
           \<and> sameClasses p p'"
proof (cases "s \<le> maxSize p")
  case True
  note g = getPool_wf [OF wf True ex]
  show ?thesis using New_class [OF g(1) g(2) s g(3), of M] g(3) by auto
next
  case False
  have mm: "minSize p \<le> maxSize p" using wf by (simp add: wfPools_def)
  have "getPool rt p s = Inr None" using getPool_above [OF mm] False by simp
  then show ?thesis using s by (simp add: New_def makeslice_def sameClasses_refl)
qed

lemma Guarantee_wf:
  assumes wf: "wfPools (bs w)" and inm: "poolInMemory (bs w) (mem w)"
    and sl: "0 \<le> bbLen bb" "bbLen bb \<le> bbCap bb"
    and al: "Data (B bb) + nat (bbCap bb) \<le> brk (mem w)"
    and n: "0 \<le> n" "bbLen bb + n \<le> MaxInt32"
    and acc: "accurateLog2 (Log2 rt)"
  shows "\<exists>w' bb'. Guarantee rt w bb n = (Inr (), w', bb') \<and> bbLen bb' = bbLen bb
           \<and> bbLen bb + n \<le> bbCap bb'
           \<and> Data (B bb') + nat (bbCap bb') \<le> brk (mem w')
           \<and> contents (mem w') (B bb') = contents (mem w) (B bb)
           \<and> c bb' = c bb
           \<and> (w' = w \<and> bb' = bb \<or> brk (mem w) \<le> Data (B bb')
                \<or> (\<exists>bp \<in> set (pools (bs w)).
                      Data (B bb') \<in> set (pool bp) \<and> bbCap bb' = capacity bp))
           \<and> sameClasses (bs w) (bs w') \<and> poolInMemory (bs w') (mem w')"
proof -
  let ?L = "bbLen bb" and ?sz = "bbLen bb + n"
  have "int64 ?sz" using sl n by (simp add: int64_def MaxInt32_def)
  then have wr: "wrap64 ?sz = ?sz" by (rule wrap64_id)
  show ?thesis
  proof (cases "?sz \<le> bbCap bb")
    case True
    then have "Guarantee rt w bb n = (Inr (), w, bb)"
      using n wr by (simp add: Guarantee_def Let_def)
    then show ?thesis using True al inm by (simp add: sameClasses_refl)
  next
    case False
    have sz0: "0 \<le> ?sz" using sl n by simp
    have ex: "log2ceil rt ?sz (minSize (bs w)) = ceilLog2 ?sz (minSize (bs w))"
      if "minSize (bs w) < ?sz"
      using that n(2) by (intro log2ceil_wf [OF acc wf]) (simp_all add: MaxInt32_def)
    obtain s1 p1 M1 where nw: "New rt (bs w) (mem w) ?sz = (Inr s1, p1, M1)"
      and s1: "Len s1 = ?sz" "?sz \<le> Cap s1" and sc1: "sameClasses (bs w) p1"
      using New_wf [OF wf sz0 ex, of "mem w"] by blast
    note fr = New_frame [OF nw]
    note im = New_inMemory [OF nw inm]
    note org = New_origin [OF nw]
    let ?buf = "s1\<lparr>Len := 0\<rparr>"
    have mk: "Make rt (bs w) (mem w) ?sz = (Inr ?buf, p1, M1)"
      using nw s1 sz0 by (simp add: Make_def sliceTo_def)
    let ?M2 = "memmove M1 (Data s1) (Data (B bb)) (nat ?L)"
    let ?buf' = "s1\<lparr>Len := ?L\<rparr>"
    have ap: "appendSlice (growcap rt) M1 ?buf (B bb) = (Inr ?buf', ?M2)"
      using s1 n by (simp add: appendSlice_def Let_def bbLen_def)
    have wf1: "wfPools p1" by (rule wfPools_same [OF wf sc1])
    have c0: "0 \<le> Cap (B bb)" using sl by (simp add: bbLen_def bbCap_def)
    obtain ok p2 where rl: "Release rt p1 (B bb) = (Inr ok, p2)" and sc2: "sameClasses p1 p2"
      using Release_cases [OF conjunct1 [OF wfPools_shape [OF wf1]]
          conjunct2 [OF wfPools_shape [OF wf1]] c0] by blast
    have g: "Guarantee rt w bb n = (Inr (), \<lparr>bs = p2, mem = ?M2\<rparr>, bb\<lparr>B := ?buf'\<rparr>)"
      using False n wr mk ap rl by (simp add: Guarantee_def Let_def)
    have b2: "brk ?M2 = brk M1" by (simp add: memmove_def)
    have pin: "Data (B bb) + nat (Cap (B bb)) \<le> brk M1"
      using al fr by (simp add: bbCap_def)
    have im2: "poolInMemory p2 ?M2"
      using Release_inMemory [OF rl im(2) pin] b2 by (simp add: poolInMemory_def)
    have al': "Data (B bb) + nat ?L \<le> brk (mem w)" using al sl by simp
    have "bytesAt ?M2 (Data s1) (nat ?L) = bytesAt M1 (Data (B bb)) (nat ?L)"
      by (rule bytesAt_memmove)
    also have "\<dots> = bytesAt (mem w) (Data (B bb)) (nat ?L)"
      using fr al' by (intro bytesAt_cong) auto
    finally have ct: "contents ?M2 ?buf' = contents (mem w) (B bb)"
      by (simp add: contents_def bbLen_def)
    have sc: "sameClasses (bs w) p2" using sc1 sc2 by (rule sameClasses_trans)
    have o: "brk (mem w) \<le> Data ?buf'
        \<or> (\<exists>bp \<in> set (pools (bs w)). Data ?buf' \<in> set (pool bp) \<and> Cap ?buf' = capacity bp)"
      using org by simp
    show ?thesis
      using g ct s1 im(1) b2 im2 sc o by (simp add: bbLen_def bbCap_def)
  qed
qed

text \<open>
  Claim C4. Let the pool of package buffer be one that \<open>NewCapacityPools\<close> returned (with
  a clamped maximum of at most \<open>2 ^ 62\<close>), in any state of its stores, let the blocks it
  stores and the array of the buffer lie in allocated memory, and let the length \<open>L\<close> of
  the buffer be at most its capacity. For every \<open>n \<ge> 0\<close> with \<open>L + n\<close> at most \<open>2 ^ 31 - 1\<close>:
  \<open>Guarantee(n)\<close> returns with a capacity of at least \<open>L + n\<close>, the length still \<open>L\<close>
  and the same \<open>L\<close> bytes; \<open>Grow(n)\<close> returns with the length \<open>L + n\<close>, which is within
  the capacity, and the same first \<open>L\<close> bytes. After either, the array of the buffer lies
  in allocated memory: it is the array the buffer had (nothing else having changed), or a
  freshly allocated one, or a block that was stored in the pool, with that block's
  capacity; the reference count is as it was, the classes of the pool are the same and its
  stored blocks lie in allocated memory. The class index is the one the \<open>float64\<close>
  expression of \<open>getPool\<close> computes, with a \<open>math.Log2\<close> that is exact at the powers of two
  and within \<open>2 ^ -44\<close> of the logarithm on the \<open>float64\<close> values up to \<open>2 ^ 40\<close>.
\<close>

theorem Guarantee_Grow:
  assumes "clampMax a b \<le> 2 ^ 62" "NewCapacityPools a b = Some p0" "sameClasses p0 (bs w)"
    and "poolInMemory (bs w) (mem w)"
    and "0 \<le> bbLen bb" "bbLen bb \<le> bbCap bb"
    and "Data (B bb) + nat (bbCap bb) \<le> brk (mem w)"
    and "0 \<le> n" "bbLen bb + n \<le> MaxInt32"
    and "accurateLog2 (Log2 rt)"
  shows "(\<exists>w' bb'. Guarantee rt w bb n = (Inr (), w', bb') \<and> bbLen bb' = bbLen bb
            \<and> bbLen bb + n \<le> bbCap bb'
            \<and> Data (B bb') + nat (bbCap bb') \<le> brk (mem w')
            \<and> contents (mem w') (B bb') = contents (mem w) (B bb)
            \<and> c bb' = c bb
            \<and> (w' = w \<and> bb' = bb \<or> brk (mem w) \<le> Data (B bb')
                 \<or> (\<exists>bp \<in> set (pools (bs w)).
                       Data (B bb') \<in> set (pool bp) \<and> bbCap bb' = capacity bp))
            \<and> sameClasses p0 (bs w') \<and> poolInMemory (bs w') (mem w'))
       \<and> (\<exists>w' bb'. Grow rt w bb n = (Inr (), w', bb') \<and> bbLen bb' = bbLen bb + n
            \<and> bbLen bb' \<le> bbCap bb'
            \<and> Data (B bb') + nat (bbCap bb') \<le> brk (mem w')
            \<and> take (nat (bbLen bb)) (contents (mem w') (B bb')) = contents (mem w) (B bb)
            \<and> c bb' = c bb
            \<and> (w' = w \<and> bb' = bb\<lparr>B := (B bb)\<lparr>Len := bbLen bb + n\<rparr>\<rparr>
                 \<or> brk (mem w) \<le> Data (B bb')
                 \<or> (\<exists>bp \<in> set (pools (bs w)).
                       Data (B bb') \<in> set (pool bp) \<and> bbCap bb' = capacity bp))
            \<and> sameClasses p0 (bs w') \<and> poolInMemory (bs w') (mem w'))"
proof -
  have wf: "wfPools (bs w)"
    using NewCapacityPools_wf [OF assms(1,2)] assms(3) by (rule wfPools_same)
  obtain w' bb' where g: "Guarantee rt w bb n = (Inr (), w', bb')"
    and l: "bbLen bb' = bbLen bb" and cp: "bbLen bb + n \<le> bbCap bb'"
    and al: "Data (B bb') + nat (bbCap bb') \<le> brk (mem w')"
    and ct: "contents (mem w') (B bb') = contents (mem w) (B bb)"
    and rc: "c bb' = c bb"
    and o: "w' = w \<and> bb' = bb \<or> brk (mem w) \<le> Data (B bb')
        \<or> (\<exists>bp \<in> set (pools (bs w)). Data (B bb') \<in> set (pool bp) \<and> bbCap bb' = capacity bp)"
    and sc: "sameClasses (bs w) (bs w')" and im: "poolInMemory (bs w') (mem w')"
    using Guarantee_wf [OF wf assms(4-10)] by blast
  have sc0: "sameClasses p0 (bs w')" using assms(3) sc by (rule sameClasses_trans)
  have "int64 (bbLen bb + n)" using assms(5,8,9) by (simp add: int64_def MaxInt32_def)
  then have wr: "wrap64 (bbLen bb + n) = bbLen bb + n" by (rule wrap64_id)
  let ?s = "(B bb')\<lparr>Len := bbLen bb + n\<rparr>"
  let ?bb = "bb'\<lparr>B := ?s\<rparr>"
  have st: "sliceTo (B bb') (bbLen bb + n) = Inr ?s"
    using cp assms(5,8) by (simp add: sliceTo_def bbCap_def)
  have gr: "Grow rt w bb n = (Inr (), w', ?bb)"
    using g l wr st by (simp add: Grow_def)
  have le: "nat (bbLen bb) \<le> nat (bbLen bb + n)" using assms(8) by simp
  have "take (nat (bbLen bb)) (bytesAt (mem w') (Data (B bb')) (nat (bbLen bb + n)))
      = bytesAt (mem w') (Data (B bb')) (nat (bbLen bb))"
    by (rule bytesAt_take [OF le])
  then have "take (nat (bbLen bb)) (contents (mem w') ?s) = contents (mem w') (B bb')"
    using l by (simp add: contents_def bbLen_def)
  then have tk: "take (nat (bbLen bb)) (contents (mem w') (B ?bb)) = contents (mem w) (B bb)"
    using ct by simp
  have l2: "bbLen ?bb = bbLen bb + n" by (simp add: bbLen_def)
  have c2: "bbCap ?bb = bbCap bb'" "Data (B ?bb) = Data (B bb')" "c ?bb = c bb"
    using rc by (simp_all add: bbCap_def)
  have o2: "w' = w \<and> ?bb = bb\<lparr>B := (B bb)\<lparr>Len := bbLen bb + n\<rparr>\<rparr>
      \<or> brk (mem w) \<le> Data (B ?bb)
      \<or> (\<exists>bp \<in> set (pools (bs w)). Data (B ?bb) \<in> set (pool bp) \<and> bbCap ?bb = capacity bp)"
    using o unfolding c2 by auto
  have first: "\<exists>w' bb'. Guarantee rt w bb n = (Inr (), w', bb') \<and> bbLen bb' = bbLen bb
            \<and> bbLen bb + n \<le> bbCap bb'
            \<and> Data (B bb') + nat (bbCap bb') \<le> brk (mem w')
            \<and> contents (mem w') (B bb') = contents (mem w) (B bb)
            \<and> c bb' = c bb
            \<and> (w' = w \<and> bb' = bb \<or> brk (mem w) \<le> Data (B bb')
                 \<or> (\<exists>bp \<in> set (pools (bs w)).
                       Data (B bb') \<in> set (pool bp) \<and> bbCap bb' = capacity bp))
            \<and> sameClasses p0 (bs w') \<and> poolInMemory (bs w') (mem w')"
    using g l cp al ct rc o sc0 im by blast
  have "Grow rt w bb n = (Inr (), w', ?bb) \<and> bbLen ?bb = bbLen bb + n
            \<and> bbLen ?bb \<le> bbCap ?bb
            \<and> Data (B ?bb) + nat (bbCap ?bb) \<le> brk (mem w')
            \<and> take (nat (bbLen bb)) (contents (mem w') (B ?bb)) = contents (mem w) (B bb)
            \<and> c ?bb = c bb
            \<and> (w' = w \<and> ?bb = bb\<lparr>B := (B bb)\<lparr>Len := bbLen bb + n\<rparr>\<rparr>
                 \<or> brk (mem w) \<le> Data (B ?bb)
                 \<or> (\<exists>bp \<in> set (pools (bs w)).
                       Data (B ?bb) \<in> set (pool bp) \<and> bbCap ?bb = capacity bp))
            \<and> sameClasses p0 (bs w') \<and> poolInMemory (bs w') (mem w')"
    using gr l2 cp al tk o2 sc0 im unfolding c2 by simp
  then have second: "\<exists>w' bb'. Grow rt w bb n = (Inr (), w', bb') \<and> bbLen bb' = bbLen bb + n
            \<and> bbLen bb' \<le> bbCap bb'
            \<and> Data (B bb') + nat (bbCap bb') \<le> brk (mem w')
            \<and> take (nat (bbLen bb)) (contents (mem w') (B bb')) = contents (mem w) (B bb)
            \<and> c bb' = c bb
            \<and> (w' = w \<and> bb' = bb\<lparr>B := (B bb)\<lparr>Len := bbLen bb + n\<rparr>\<rparr>
                 \<or> brk (mem w) \<le> Data (B bb')
                 \<or> (\<exists>bp \<in> set (pools (bs w)).
                       Data (B bb') \<in> set (pool bp) \<and> bbCap bb' = capacity bp))
            \<and> sameClasses p0 (bs w') \<and> poolInMemory (bs w') (mem w')"
    by (intro exI [of _ w'] exI [of _ ?bb])
  show ?thesis using first second by (rule conjI)
qed

theorem Guarantee_Grow_witness:
  "clampMax 2 8 \<le> 2 ^ 62 \<and> NewCapacityPools 2 8 = Some pool28
   \<and> sameClasses pool28 (bs countingWorld)
   \<and> poolInMemory (bs countingWorld) (mem countingWorld)
   \<and> 0 \<le> bbLen buffer123 \<and> bbLen buffer123 \<le> bbCap buffer123
   \<and> Data (B buffer123) + nat (bbCap buffer123) \<le> brk (mem countingWorld)
   \<and> (0::int) \<le> 5 \<and> bbLen buffer123 + 5 \<le> MaxInt32
   \<and> accurateLog2 (Log2 goRuntime)
   \<and> (\<exists>w' bb'. Guarantee goRuntime countingWorld buffer123 5 = (Inr (), w', bb')
          \<and> bbLen bb' = 3 \<and> 8 \<le> bbCap bb' \<and> contents (mem w') (B bb') = [1, 2, 3]
          \<and> Data (B bb') + nat (bbCap bb') \<le> brk (mem w'))
   \<and> (\<exists>w' bb'. Grow goRuntime countingWorld buffer123 5 = (Inr (), w', bb')
          \<and> bbLen bb' = 8 \<and> bbLen bb' \<le> bbCap bb'
          \<and> take 3 (contents (mem w') (B bb')) = [1, 2, 3]
          \<and> Data (B bb') + nat (bbCap bb') \<le> brk (mem w'))"
proof -
  have h1: "clampMax 2 8 \<le> 2 ^ 62" by (simp add: clampMax_def clampMin_def)
  have h3: "sameClasses pool28 (bs countingWorld)"
    by (simp add: countingWorld_def sameClasses_refl)
  have h4: "poolInMemory (bs countingWorld) (mem countingWorld)"
    by (simp add: poolInMemory_def countingWorld_def pool28_def newBytesPool_def)
  have l: "bbLen buffer123 = 3" "bbCap buffer123 = 3"
    by (simp_all add: bbLen_def bbCap_def buffer123_def)
  have h5: "0 \<le> bbLen buffer123" and h6: "bbLen buffer123 \<le> bbCap buffer123"
    by (simp_all add: l)
  have h7: "Data (B buffer123) + nat (bbCap buffer123) \<le> brk (mem countingWorld)"
    unfolding l by (simp add: buffer123_def countingWorld_def countingMemory_def)
  have h8: "(0::int) \<le> 5" by simp
  have h9: "bbLen buffer123 + 5 \<le> MaxInt32" by (simp add: l MaxInt32_def)
  have c: "contents (mem countingWorld) (B buffer123) = [1, 2, 3]"
    by (simp add: contents_def bytesAt_def countingWorld_def countingMemory_def buffer123_def
        upt_3)
  note t = Guarantee_Grow [OF h1 NewCapacityPools_2_8 h3 h4 h5 h6 h7 h8 h9
      accurateLog2_goRuntime]
  have a: "\<exists>w' bb'. Guarantee goRuntime countingWorld buffer123 5 = (Inr (), w', bb')
          \<and> bbLen bb' = 3 \<and> 8 \<le> bbCap bb' \<and> contents (mem w') (B bb') = [1, 2, 3]
          \<and> Data (B bb') + nat (bbCap bb') \<le> brk (mem w')"
    using conjunct1 [OF t] unfolding l c by auto
  have b: "\<exists>w' bb'. Grow goRuntime countingWorld buffer123 5 = (Inr (), w', bb')
          \<and> bbLen bb' = 8 \<and> bbLen bb' \<le> bbCap bb'
          \<and> take 3 (contents (mem w') (B bb')) = [1, 2, 3]
          \<and> Data (B bb') + nat (bbCap bb') \<le> brk (mem w')"
    using conjunct2 [OF t] unfolding l c by auto
  show ?thesis
    using h1 NewCapacityPools_2_8 h3 h4 h7 h9 accurateLog2_goRuntime a b by (simp add: l)
qed

section \<open>Read\<close>




section \<open>ReadFrom\<close>

lemma readerRead_length: "readerRead r k = ((d, err), r1) \<Longrightarrow> length d \<le> k"
  by (auto simp: readerRead_def split: list.splits if_splits)

lemma readerRead_error:
  "readerRead r k = ((d, Some e), r1) \<Longrightarrow>
   delivered r = d \<and> outcome r = (if e = EOF then None else Some e)"
  by (auto simp: readerRead_def split: list.splits if_splits)

lemma readerRead_nil:
  assumes "readerRead r k = ((d, None), r1)"
  shows "delivered r = d @ delivered r1" and "outcome r = outcome r1"
    and "0 < k \<Longrightarrow> steps r1 < steps r"
proof -
  obtain d' e' rest where r: "r = (d', e') # rest"
    using assms by (cases r) (auto simp: readerRead_def)
  show "delivered r = d @ delivered r1"
    using assms unfolding r
    by (cases e') (auto simp: readerRead_def split: if_splits)
  show "outcome r = outcome r1"
    using assms unfolding r
    by (cases e') (auto simp: readerRead_def split: if_splits)
  show "steps r1 < steps r" if "0 < k"
    using assms that unfolding r
    by (auto simp: readerRead_def split: if_splits)
qed

lemma bytesAt_append: "bytesAt M x (n + m) = bytesAt M x n @ bytesAt M (x + n) m"
proof -
  have "[x ..< x + (n + m)] = [x ..< x + n] @ [x + n ..< x + n + m]"
    by (metis add.assoc le_add1 upt_add_eq_append)
  then show ?thesis by (simp add: bytesAt_def)
qed

lemma bytesAt_writeBytes_before:
  "x + n \<le> a \<Longrightarrow> bytesAt (writeBytes M a d) x n = bytesAt M x n"
  by (rule bytesAt_cong) (simp add: writeBytes_def)

lemma bytesAt_writeBytes_at: "bytesAt (writeBytes M a d) a (length d) = d"
  by (rule nth_equalityI) (simp_all add: bytesAt_def writeBytes_def)

lemma growIfFull_ok:
  assumes wf: "wfPools (bs w)" and inm: "poolInMemory (bs w) (mem w)"
    and acc: "accurateLog2 (Log2 rt)"
    and p: "Len p = bCap" "bCap \<le> Cap p" "Data p + nat (Cap p) \<le> brk (mem w)"
    and n: "0 \<le> n" "n \<le> bCap" "0 < bCap" "n < MaxInt32"
  shows "\<exists>w1 p1 bCap1. growIfFull rt w p n bCap = Inr (w1, p1, bCap1)
      \<and> sameClasses (bs w) (bs w1) \<and> poolInMemory (bs w1) (mem w1)
      \<and> Len p1 = bCap1 \<and> bCap1 \<le> Cap p1 \<and> Data p1 + nat (Cap p1) \<le> brk (mem w1)
      \<and> n < bCap1
      \<and> bytesAt (mem w1) (Data p1) (nat n) = bytesAt (mem w) (Data p) (nat n)"
proof (cases "n = bCap")
  case False
  then have "growIfFull rt w p n bCap = Inr (w, p, bCap)" by (simp add: growIfFull_def)
  then show ?thesis using False inm p n by (simp add: sameClasses_refl)
next
  case True
  let ?c = "if 2 * bCap > MaxInt32 then MaxInt32 else 2 * bCap"
  have "int64 (bCap * 2)" using n True by (simp add: int64_def MaxInt32_def)
  then have wr: "wrap64 (bCap * 2) = 2 * bCap" by (simp add: wrap64_id)
  have c: "n < ?c" "0 \<le> ?c" using n True by auto
  have ex: "log2ceil rt ?c (minSize (bs w)) = ceilLog2 ?c (minSize (bs w))"
    if "minSize (bs w) < ?c"
    using that by (intro log2ceil_wf [OF acc wf]) (simp_all add: MaxInt32_def)
  obtain pNew q1 M1 where nw: "New rt (bs w) (mem w) ?c = (Inr pNew, q1, M1)"
    and pn: "Len pNew = ?c" "?c \<le> Cap pNew" and sc1: "sameClasses (bs w) q1"
    using New_wf [OF wf c(2) ex, of "mem w"] by blast
  note fr = New_frame [OF nw]
  note im = New_inMemory [OF nw inm]
  have wf1: "wfPools q1" by (rule wfPools_same [OF wf sc1])
  have c0: "0 \<le> Cap p" using p n by simp
  obtain ok q2 where rl: "Release rt q1 p = (Inr ok, q2)" and sc2: "sameClasses q1 q2"
    using Release_cases [OF conjunct1 [OF wfPools_shape [OF wf1]]
        conjunct2 [OF wfPools_shape [OF wf1]] c0] by blast
  have pin: "Data p + nat (Cap p) \<le> brk M1" using p(3) fr by simp
  let ?M2 = "memmove M1 (Data pNew) (Data p) (nat bCap)"
  have cp: "copySlice M1 pNew p = (bCap, ?M2)"
    using pn(1) p(1) c(1) True by (simp add: copySlice_def Let_def min_def)
  have g: "growIfFull rt w p n bCap = Inr (\<lparr>bs = q2, mem = ?M2\<rparr>, pNew, ?c)"
    using True n wr nw cp rl by (simp add: growIfFull_def Let_def)
  have b2: "brk ?M2 = brk M1" by (simp add: memmove_def)
  have im2: "poolInMemory q2 ?M2"
    using Release_inMemory [OF rl im(2) pin] b2 by (simp add: poolInMemory_def)
  have "bytesAt ?M2 (Data pNew) (nat bCap) = bytesAt M1 (Data p) (nat bCap)"
    by (rule bytesAt_memmove)
  also have "\<dots> = bytesAt (mem w) (Data p) (nat bCap)"
    using fr p by (intro bytesAt_cong) auto
  finally have bts: "bytesAt ?M2 (Data pNew) (nat n) = bytesAt (mem w) (Data p) (nat n)"
    using True by simp
  have "sameClasses (bs w) q2" using sc1 sc2 by (rule sameClasses_trans)
  then show ?thesis using g im2 pn im(1) b2 c(1) bts by simp
qed

lemma readLoop_appends:
  assumes wf: "wfPools (bs w)" and inm: "poolInMemory (bs w) (mem w)"
    and acc: "accurateLog2 (Log2 rt)"
    and p: "Len p = bCap" "bCap \<le> Cap p" "Data p + nat (Cap p) \<le> brk (mem w)"
    and n: "0 \<le> n" "n \<le> bCap" "0 < bCap"
    and bound: "n + int (length (delivered r)) < MaxInt32"
  shows "\<exists>w' s r'. readLoop rt bLen bb w r p n bCap
            = Some (Inr (n + int (length (delivered r)) - bLen, outcome r), w', bb\<lparr>B := s\<rparr>, r')
      \<and> contents (mem w') s = bytesAt (mem w) (Data p) (nat n) @ delivered r
      \<and> sameClasses (bs w) (bs w') \<and> poolInMemory (bs w') (mem w')"
  using assms
proof (induction "steps r" arbitrary: w r p n bCap rule: less_induct)
  case less
  note wf = less.prems(1) and inm = less.prems(2) and acc = less.prems(3)
    and p = less.prems(4,5,6) and n = less.prems(7,8,9) and bound = less.prems(10)
  have nlt: "n < MaxInt32" using bound by simp
  obtain w1 p1 bCap1 where g: "growIfFull rt w p n bCap = Inr (w1, p1, bCap1)"
    and sc1: "sameClasses (bs w) (bs w1)" and inm1: "poolInMemory (bs w1) (mem w1)"
    and p1: "Len p1 = bCap1" "bCap1 \<le> Cap p1" "Data p1 + nat (Cap p1) \<le> brk (mem w1)"
    and nb: "n < bCap1"
    and c1: "bytesAt (mem w1) (Data p1) (nat n) = bytesAt (mem w) (Data p) (nat n)"
    using growIfFull_ok [OF wf inm acc p n nlt] by blast
  have wf1: "wfPools (bs w1)" by (rule wfPools_same [OF wf sc1])
  have ms: "minSize (bs w1) = minSize (bs w)" using sc1 by (simp add: sameClasses_def)
  let ?q = "\<lparr>Data = Data p1 + nat n, Len = Len p1 - n, Cap = Cap p1 - n\<rparr>"
  have sf: "sliceFrom p1 n = Inr ?q" using n nb p1 by (simp add: sliceFrom_def)
  have kpos: "0 < nat (Len ?q)" using nb p1 by simp
  obtain d err r1 where rd: "readerRead r (nat (Len ?q)) = ((d, err), r1)"
    by (cases "readerRead r (nat (Len ?q))") auto
  have rd': "readerRead r (nat (Len p1 - n)) = ((d, err), r1)" using rd by simp
  have dl: "int (length d) \<le> bCap1 - n"
    using readerRead_length [OF rd] p1 nb by simp
  let ?M2 = "writeBytes (mem w1) (Data p1 + nat n) d"
  let ?w2 = "w1\<lparr>mem := ?M2\<rparr>"
  let ?n1 = "n + int (length d)"
  have n1: "0 \<le> ?n1" "?n1 \<le> bCap1" using n dl by simp_all
  have nn: "nat ?n1 = nat n + length d" using n by (simp add: nat_add_distrib)
  have "bytesAt ?M2 (Data p1) (nat n + length d)
      = bytesAt ?M2 (Data p1) (nat n) @ bytesAt ?M2 (Data p1 + nat n) (length d)"
    by (rule bytesAt_append)
  also have "bytesAt ?M2 (Data p1) (nat n) = bytesAt (mem w1) (Data p1) (nat n)"
    by (rule bytesAt_writeBytes_before) simp
  also have "bytesAt ?M2 (Data p1 + nat n) (length d) = d"
    by (rule bytesAt_writeBytes_at)
  finally have c2: "bytesAt ?M2 (Data p1) (nat ?n1) = bytesAt (mem w) (Data p) (nat n) @ d"
    using c1 nn by simp
  have b2: "brk ?M2 = brk (mem w1)" by (simp add: writeBytes_def)
  have inm2: "poolInMemory (bs ?w2) (mem ?w2)"
    using inm1 b2 by (simp add: poolInMemory_def)
  show ?case
  proof (cases err)
    case (Some e)
    note re = readerRead_error [OF rd [unfolded Some]]
    let ?s = "p1\<lparr>Len := ?n1\<rparr>"
    have st: "sliceTo p1 ?n1 = Inr ?s" using n1 p1 by (simp add: sliceTo_def)
    have "readLoop rt bLen bb w r p n bCap
        = Some (Inr (?n1 - bLen, if e = EOF then None else Some e), ?w2, bb\<lparr>B := ?s\<rparr>, r1)"
      by (subst readLoop.simps) (simp add: g sf rd' Some st Let_def)
    moreover have "contents (mem ?w2) ?s = bytesAt (mem w) (Data p) (nat n) @ delivered r"
      using c2 re by (simp add: contents_def)
    ultimately show ?thesis using re sc1 inm2 by auto
  next
    case None
    note rn = readerRead_nil [OF rd [unfolded None]]
    have lt: "steps r1 < steps r" by (rule rn(3) [OF kpos])
    have bound1: "?n1 + int (length (delivered r1)) < MaxInt32"
      using bound rn(1) by simp
    have wf2: "wfPools (bs ?w2)" using wf1 by simp
    have p2: "Data p1 + nat (Cap p1) \<le> brk (mem ?w2)" using p1(3) b2 by simp
    have bpos: "0 < bCap1" using n nb by simp
    obtain w' s r' where rl: "readLoop rt bLen bb ?w2 r1 p1 ?n1 bCap1
            = Some (Inr (?n1 + int (length (delivered r1)) - bLen, outcome r1), w', bb\<lparr>B := s\<rparr>, r')"
      and ct: "contents (mem w') s = bytesAt (mem ?w2) (Data p1) (nat ?n1) @ delivered r1"
      and sc': "sameClasses (bs ?w2) (bs w')" and inm': "poolInMemory (bs w') (mem w')"
      using less.hyps [OF lt wf2 inm2 acc p1(1,2) p2 n1 bpos bound1] by blast
    have "readLoop rt bLen bb w r p n bCap = readLoop rt bLen bb ?w2 r1 p1 ?n1 bCap1"
      by (subst readLoop.simps) (simp add: g sf rd' None Let_def)
    moreover have "contents (mem w') s = bytesAt (mem w) (Data p) (nat n) @ delivered r"
      using ct c2 rn(1) by simp
    moreover have "sameClasses (bs w) (bs w')"
      using sc1 sc' by (auto intro: sameClasses_trans)
    ultimately show ?thesis using rl rn inm' by (auto simp: algebra_simps)
  qed
qed

text \<open>
  What \<open>ReadFrom\<close> does on a buffer with a capacity above 0, as claim C7 says: for a
  pool that \<open>NewCapacityPools\<close> returned whose stored blocks lie in allocated memory, a
  buffer whose array lies in allocated memory, an accurate \<open>math.Log2\<close>, and a
  reader whose bytes keep the length below \<open>2 ^ 31 - 1\<close>, it returns; the buffer then
  holds its old bytes followed by all the bytes the reader delivered, the count is the
  number of those bytes, and the error is nil at end-of-stream and the reader's error
  otherwise.
\<close>

lemma ReadFrom_appends:
  assumes "clampMax a b \<le> 2 ^ 62" "NewCapacityPools a b = Some p0" "sameClasses p0 (bs w)"
    and "poolInMemory (bs w) (mem w)"
    and "accurateLog2 (Log2 rt)"
    and "0 \<le> bbLen bb" "bbLen bb \<le> bbCap bb" "0 < bbCap bb"
    and "Data (B bb) + nat (bbCap bb) \<le> brk (mem w)"
    and "bbLen bb + int (length (delivered r)) < MaxInt32"
  shows "\<exists>w' bb' r'. ReadFrom rt w bb r
            = Some (Inr (int (length (delivered r)), outcome r), w', bb', r')
      \<and> contents (mem w') (B bb') = contents (mem w) (B bb) @ delivered r
      \<and> c bb' = c bb \<and> sameClasses p0 (bs w') \<and> poolInMemory (bs w') (mem w')"
proof -
  have wf: "wfPools (bs w)"
    using NewCapacityPools_wf [OF assms(1,2)] assms(3) by (rule wfPools_same)
  let ?p = "(B bb)\<lparr>Len := bbCap bb\<rparr>"
  have st: "sliceTo (B bb) (bbCap bb) = Inr ?p"
    using assms(8) by (simp add: sliceTo_def bbCap_def)
  have p: "Len ?p = bbCap bb" "bbCap bb \<le> Cap ?p" "Data ?p + nat (Cap ?p) \<le> brk (mem w)"
    using assms(9) by (simp_all add: bbCap_def)
  obtain w' s r' where rl: "readLoop rt (bbLen bb) bb w r ?p (bbLen bb) (bbCap bb)
        = Some (Inr (bbLen bb + int (length (delivered r)) - bbLen bb, outcome r),
                w', bb\<lparr>B := s\<rparr>, r')"
    and ct: "contents (mem w') s = bytesAt (mem w) (Data ?p) (nat (bbLen bb)) @ delivered r"
    and sc: "sameClasses (bs w) (bs w')" and im: "poolInMemory (bs w') (mem w')"
    using readLoop_appends [OF wf assms(4,5) p assms(6,7,8,10), of "bbLen bb" bb] by blast
  have "ReadFrom rt w bb r
      = Some (Inr (int (length (delivered r)), outcome r), w', bb\<lparr>B := s\<rparr>, r')"
    using rl st by (simp add: ReadFrom_def Let_def)
  moreover have "contents (mem w') (B (bb\<lparr>B := s\<rparr>)) = contents (mem w) (B bb) @ delivered r"
    using ct by (simp add: contents_def bbLen_def)
  moreover have "sameClasses p0 (bs w')" using assms(3) sc by (rule sameClasses_trans)
  ultimately show ?thesis using im by (intro exI [of _ w'] exI [of _ "bb\<lparr>B := s\<rparr>"] exI [of _ r']) simp
qed

lemma ReadFrom_appends_example:
  "\<exists>w' bb' r'. ReadFrom goRuntime countingWorld buffer123 twoChunkReader
                  = Some (Inr (5, None), w', bb', r')
     \<and> contents (mem w') (B bb') = [1, 2, 3, 4, 5, 6, 7, 8]"
proof -
  have h1: "clampMax 2 8 \<le> 2 ^ 62" by (simp add: clampMax_def clampMin_def)
  have h3: "sameClasses pool28 (bs countingWorld)"
    by (simp add: countingWorld_def sameClasses_refl)
  have h4: "poolInMemory (bs countingWorld) (mem countingWorld)"
    by (simp add: poolInMemory_def countingWorld_def pool28_def newBytesPool_def)
  note h5 = accurateLog2_goRuntime
  have l: "bbLen buffer123 = 3" "bbCap buffer123 = 3"
    by (simp_all add: bbLen_def bbCap_def buffer123_def)
  have h9: "Data (B buffer123) + nat (bbCap buffer123) \<le> brk (mem countingWorld)"
    unfolding l by (simp add: buffer123_def countingWorld_def countingMemory_def)
  have d: "delivered twoChunkReader = [4, 5, 6, 7, 8]" "outcome twoChunkReader = None"
    by (simp_all add: twoChunkReader_def)
  have c: "contents (mem countingWorld) (B buffer123) = [1, 2, 3]"
    by (simp add: contents_def bytesAt_def countingWorld_def countingMemory_def buffer123_def
        upt_3)
  show ?thesis
    using ReadFrom_appends [OF h1 NewCapacityPools_2_8 h3 h4 h5 _ _ _ h9,
        where r = twoChunkReader]
    by (auto simp: l d c MaxInt32_def)
qed

lemma growIfFull_zero:
  assumes "wfPools (bs w)" "0 \<le> Cap p"
  shows "\<exists>w1 p1. growIfFull rt w p 0 0 = Inr (w1, p1, 0) \<and> Len p1 = 0 \<and> 0 \<le> Cap p1
           \<and> wfPools (bs w1)"
proof -
  have pos: "0 < minSize (bs w)" using assms(1) by (simp add: wfPools_def)
  obtain s1 q1 M1 where nw: "New rt (bs w) (mem w) 0 = (Inr s1, q1, M1)"
    and s1: "Len s1 = 0" "0 \<le> Cap s1" and sc1: "sameClasses (bs w) q1"
    using New_wf [OF assms(1), of 0 rt "mem w"] pos by auto
  have wf1: "wfPools q1" by (rule wfPools_same [OF assms(1) sc1])
  obtain ok q2 where rl: "Release rt q1 p = (Inr ok, q2)" and sc2: "sameClasses q1 q2"
    using Release_cases [OF conjunct1 [OF wfPools_shape [OF wf1]]
        conjunct2 [OF wfPools_shape [OF wf1]] assms(2)] by blast
  have wf2: "wfPools q2" by (rule wfPools_same [OF wf1 sc2])
  obtain k M2 where cp: "copySlice M1 s1 p = (k, M2)" by (cases "copySlice M1 s1 p")
  have "growIfFull rt w p 0 0 = Inr (\<lparr>bs = q2, mem = M2\<rparr>, s1, 0)"
    using nw cp rl by (simp add: growIfFull_def MaxInt32_def wrap64_def)
  then show ?thesis using s1 wf2 by simp
qed

lemma stuck_step:
  assumes "stuck w r p n bCap"
  shows "\<exists>w2 p1. stuck w2 r p1 n bCap \<and>
           (\<forall>f bLen (bb :: Buffer).
              (case growIfFull rt w p n bCap of
                 Inl (out, w1) \<Rightarrow> Some (out, w1, bb, r)
               | Inr (w1, p1, bCap1) \<Rightarrow>
                   (case sliceFrom p1 n of
                      Inl e \<Rightarrow> Some (Inl e, w1, bb, r)
                    | Inr q \<Rightarrow>
                        (case readerRead r (nat (Len q)) of
                           ((d, err), r1) \<Rightarrow>
                             (let w2 = w1\<lparr>mem := writeBytes (mem w1) (Data q) d\<rparr>;
                                  n1 = n + int (length d)
                              in case err of
                                   None \<Rightarrow> f rt bLen bb w2 r1 p1 n1 bCap1
                                 | Some e \<Rightarrow>
                                     (case sliceTo p1 n1 of
                                        Inl e' \<Rightarrow> Some (Inl e', w2, bb, r1)
                                      | Inr s \<Rightarrow>
                                          Some (Inr (n1 - bLen, if e = EOF then None else Some e),
                                                w2, bb\<lparr>B := s\<rparr>, r1))))))
              = f rt bLen bb w2 r p1 n bCap)"
proof -
  have z: "n = 0" "bCap = 0" and cp: "0 \<le> Cap p" and wf: "wfPools (bs w)"
    using assms by (simp_all add: stuck_def)
  obtain d e rest where r: "r = (d, e) # rest" "d \<noteq> []"
    using assms by (cases r) (auto simp: stuck_def)
  obtain w1 p1 where g: "growIfFull rt w p 0 0 = Inr (w1, p1, 0)"
    and p1: "Len p1 = 0" "0 \<le> Cap p1" and wf1: "wfPools (bs w1)"
    using growIfFull_zero [OF wf cp, of rt] by blast
  have sf: "sliceFrom p1 0 = Inr \<lparr>Data = Data p1, Len = 0, Cap = Cap p1\<rparr>"
    using p1 by (simp add: sliceFrom_def)
  have rd: "readerRead r 0 = (([], None), r)"
    using r by (simp add: readerRead_def)
  let ?w2 = "w1\<lparr>mem := writeBytes (mem w1) (Data p1) []\<rparr>"
  have "stuck ?w2 r p1 n bCap" using z p1 wf1 r by (simp add: stuck_def)
  then show ?thesis
    using z g sf rd by (intro exI [of _ ?w2] exI [of _ p1]) (simp add: Let_def)
qed

lemma readLoop_stuck:
  assumes ret: "readLoop rt bLen bb w r p n bCap = Some y"
  shows "\<not> stuck w r p n bCap"
proof (rule readLoop.raw_induct
    [where P = "\<lambda>rt bLen bb w r p n bCap y. \<not> stuck w r p n bCap", OF _ ret])
  fix f :: "runtime \<Rightarrow> int \<Rightarrow> Buffer \<Rightarrow> world \<Rightarrow> reader \<Rightarrow> slice \<Rightarrow> int \<Rightarrow> int
      \<Rightarrow> ((error + int \<times> error option) \<times> world \<times> Buffer \<times> reader) option"
  fix rt bLen bb w r p n bCap y
  assume IH: "\<And>rt bLen bb w r p n bCap y. f rt bLen bb w r p n bCap = Some y \<Longrightarrow> \<not> stuck w r p n bCap"
  assume body: "(case growIfFull rt w p n bCap of
                 Inl (out, w1) \<Rightarrow> Some (out, w1, bb, r)
               | Inr (w1, p1, bCap1) \<Rightarrow>
                   (case sliceFrom p1 n of
                      Inl e \<Rightarrow> Some (Inl e, w1, bb, r)
                    | Inr q \<Rightarrow>
                        (case readerRead r (nat (Len q)) of
                           ((d, err), r1) \<Rightarrow>
                             (let w2 = w1\<lparr>mem := writeBytes (mem w1) (Data q) d\<rparr>;
                                  n1 = n + int (length d)
                              in case err of
                                   None \<Rightarrow> f rt bLen bb w2 r1 p1 n1 bCap1
                                 | Some e \<Rightarrow>
                                     (case sliceTo p1 n1 of
                                        Inl e' \<Rightarrow> Some (Inl e', w2, bb, r1)
                                      | Inr s \<Rightarrow>
                                          Some (Inr (n1 - bLen, if e = EOF then None else Some e),
                                                w2, bb\<lparr>B := s\<rparr>, r1)))))) = Some y"
  show "\<not> stuck w r p n bCap"
  proof
    assume "stuck w r p n bCap"
    from stuck_step [OF this, of rt] obtain w2 p1 where st: "stuck w2 r p1 n bCap"
      and step: "\<And>f bLen (bb :: Buffer).
              (case growIfFull rt w p n bCap of
                 Inl (out, w1) \<Rightarrow> Some (out, w1, bb, r)
               | Inr (w1, p1, bCap1) \<Rightarrow>
                   (case sliceFrom p1 n of
                      Inl e \<Rightarrow> Some (Inl e, w1, bb, r)
                    | Inr q \<Rightarrow>
                        (case readerRead r (nat (Len q)) of
                           ((d, err), r1) \<Rightarrow>
                             (let w2 = w1\<lparr>mem := writeBytes (mem w1) (Data q) d\<rparr>;
                                  n1 = n + int (length d)
                              in case err of
                                   None \<Rightarrow> f rt bLen bb w2 r1 p1 n1 bCap1
                                 | Some e \<Rightarrow>
                                     (case sliceTo p1 n1 of
                                        Inl e' \<Rightarrow> Some (Inl e', w2, bb, r1)
                                      | Inr s \<Rightarrow>
                                          Some (Inr (n1 - bLen, if e = EOF then None else Some e),
                                                w2, bb\<lparr>B := s\<rparr>, r1))))))
              = f rt bLen bb w2 r p1 n bCap"
      by blast
    have eq: "f rt bLen bb w2 r p1 n bCap = Some y"
      using body unfolding step [where f = f and bLen = bLen and bb = bb] .
    from IH [OF eq] st show False by simp
  qed
qed

text \<open>
  Claim C7 at the zero value of \<open>Buffer\<close>, which the package documents as an empty buffer
  ready to use: with capacity 0 the doubling \<open>bCap *= 2\<close> stays 0, every \<open>Read\<close> is handed
  an empty slice, and a reader that still holds a byte answers \<open>(0, nil)\<close>. \<open>ReadFrom\<close>
  never returns, so the byte is never appended and no count is reported.
\<close>

theorem ReadFrom_zero_capacity_diverges:
  "ReadFrom goRuntime idleWorld zeroBuffer oneByteReader = None"
proof -
  have "readLoop goRuntime 0 zeroBuffer idleWorld oneByteReader nilSlice 0 0 \<noteq> Some y" for y
    using readLoop_stuck [of goRuntime 0 zeroBuffer idleWorld oneByteReader nilSlice 0 0 y]
      wfPools_pool28
    by (auto simp: stuck_def nilSlice_def idleWorld_def oneByteReader_def)
  then have "readLoop goRuntime 0 zeroBuffer idleWorld oneByteReader nilSlice 0 0 = None"
    by (cases "readLoop goRuntime 0 zeroBuffer idleWorld oneByteReader nilSlice 0 0") auto
  then show ?thesis
    by (simp add: ReadFrom_def bbLen_def bbCap_def zeroBuffer_def nilSlice_def sliceTo_def)
qed

end
